theory Spec2Isabelle
  imports Main "HOL-Library.Word"
begin

unbundle bit_operations_syntax

section \<open>Values, bytes and errors\<close>

text \<open>
  The card codec (\<^verbatim>\<open>cardImportService\<close>) works on values produced by \<^verbatim>\<open>JSON.parse\<close>
  and on \<^verbatim>\<open>Uint8Array\<close> buffers. A value is one of the JavaScript values such a
  program can hold: \<^verbatim>\<open>undefined\<close>, \<^verbatim>\<open>null\<close>, booleans, numbers, strings, arrays and plain
  objects, and the built-in method read off \<^verbatim>\<open>Array.prototype\<close> by \<^verbatim>\<open>x.entries\<close> or
  \<^verbatim>\<open>x.keys\<close> on an array. An object is its property list in enumeration order. Numbers are
  integers here: the codec only tests them for truthiness and prints them. A string is kept
  as the sequence of its UTF-8 bytes: \<^verbatim>\<open>TextEncoder\<close> gives these bytes back, and
  \<^verbatim>\<open>TextDecoder\<close> is the UTF-8 decoder of the Encoding Standard seen on bytes, which drops
  a leading byte order mark and puts U+FFFD, the bytes EF BF BD, for every ill-formed
  sequence. White space is the set of ECMAScript, each character in its UTF-8 form.
\<close>

type_synonym byte = "8 word"
type_synonym u32 = "32 word"

datatype json =
    JUndefined
  | JNull
  | JBool bool
  | JNum int
  | JStr string
  | JArr "json list"
  | JObj "(string \<times> json) list"
  | JBuiltin

datatype error =
    NotAPng
  | NoCardData
  | MissingIend
  | RangeError
  | TypeError
  | Base64Failed

datatype import_format = Png | Json

text \<open>Truthiness, \<^verbatim>\<open>a || b\<close>, and the values on which a property read throws.\<close>

fun truthy :: "json \<Rightarrow> bool" where
  "truthy JUndefined = False"
| "truthy JNull = False"
| "truthy (JBool b) = b"
| "truthy (JNum n) = (n \<noteq> 0)"
| "truthy (JStr s) = (s \<noteq> [])"
| "truthy (JArr xs) = True"
| "truthy (JObj kvs) = True"
| "truthy JBuiltin = True"

definition jor :: "json \<Rightarrow> json \<Rightarrow> json" where
  "jor a b = (if truthy a then a else b)"

fun nullish :: "json \<Rightarrow> bool" where
  "nullish JUndefined = True"
| "nullish JNull = True"
| "nullish v = False"

fun is_array :: "json \<Rightarrow> bool" where
  "is_array (JArr xs) = True"
| "is_array v = False"

text \<open>
  \<^verbatim>\<open>x.k\<close> for a value \<open>x\<close> that is neither \<^verbatim>\<open>null\<close> nor \<^verbatim>\<open>undefined\<close>, for the property
  names this program reads. Of those names only \<^verbatim>\<open>entries\<close> and \<^verbatim>\<open>keys\<close> are inherited
  by an array; no other primitive inherits any of them.
\<close>

fun get :: "json \<Rightarrow> string \<Rightarrow> json" where
  "get (JObj kvs) k = (case map_of kvs k of Some v \<Rightarrow> v | None \<Rightarrow> JUndefined)"
| "get (JArr xs) k = (if k = ''entries'' \<or> k = ''keys'' then JBuiltin else JUndefined)"
| "get v k = JUndefined"

text \<open>\<^verbatim>\<open>x?.k\<close>\<close>

definition optget :: "json \<Rightarrow> string \<Rightarrow> json" where
  "optget x k = (if nullish x then JUndefined else get x k)"

text \<open>Decimal numerals, for array indices as property names and for \<^verbatim>\<open>String(n)\<close>.\<close>

fun dec :: "nat \<Rightarrow> string" where
  "dec n = (if n < 10 then [char_of (48 + n)] else dec (n div 10) @ [char_of (48 + n mod 10)])"

declare dec.simps [simp del]

definition dec_int :: "int \<Rightarrow> string" where
  "dec_int i = (if i < 0 then CHR ''-'' # dec (nat (- i)) else dec (nat i))"

text \<open>
  The own enumerable properties copied by \<^verbatim>\<open>{...x}\<close>: those of an object, the indexed
  elements of an array, the indexed characters of a string, nothing otherwise.
\<close>

fun spread :: "json \<Rightarrow> (string \<times> json) list" where
  "spread (JObj kvs) = kvs"
| "spread (JArr xs) = zip (map dec [0..<length xs]) xs"
| "spread (JStr s) = zip (map dec [0..<length s]) (map (\<lambda>c. JStr [c]) s)"
| "spread v = []"

text \<open>
  A property written into an object literal or by a later spread: an existing key keeps its
  place and takes the new value, a new key goes to the end.
\<close>

definition obj_set :: "string \<Rightarrow> json \<Rightarrow> (string \<times> json) list \<Rightarrow> (string \<times> json) list" where
  "obj_set k v kvs =
     (if k \<in> fst ` set kvs then map (\<lambda>(k', v'). if k' = k then (k', v) else (k', v')) kvs
      else kvs @ [(k, v)])"

definition overlay :: "(string \<times> json) list \<Rightarrow> (string \<times> json) list \<Rightarrow> (string \<times> json) list" where
  "overlay base fields = foldl (\<lambda>acc (k, v). obj_set k v acc) base fields"

definition obj_get :: "(string \<times> json) list \<Rightarrow> string \<Rightarrow> json" where
  "obj_get kvs k = (case map_of kvs k of Some v \<Rightarrow> v | None \<Rightarrow> JUndefined)"

text \<open>
  Strings: \<^verbatim>\<open>trim\<close>, \<^verbatim>\<open>startsWith\<close>, \<^verbatim>\<open>toLowerCase\<close>, \<^verbatim>\<open>replace(/\s/g, "")\<close>,
  \<^verbatim>\<open>split(",")\<close>, \<^verbatim>\<open>join\<close>.

  The characters that \<^verbatim>\<open>trim\<close> and the class \<^verbatim>\<open>\s\<close> take for white space are U+0009 to
  U+000D, U+0020, U+00A0, U+1680, U+2000 to U+200A, U+2028, U+2029, U+202F, U+205F, U+3000
  and U+FEFF.
\<close>

definition white_space :: "string list" where
  "white_space =
     [[CHR 0x09], [CHR 0x0A], [CHR 0x0B], [CHR 0x0C], [CHR 0x0D], [CHR 0x20],
      [CHR 0xC2, CHR 0xA0], [CHR 0xE1, CHR 0x9A, CHR 0x80],
      [CHR 0xE2, CHR 0x80, CHR 0x80], [CHR 0xE2, CHR 0x80, CHR 0x81],
      [CHR 0xE2, CHR 0x80, CHR 0x82], [CHR 0xE2, CHR 0x80, CHR 0x83],
      [CHR 0xE2, CHR 0x80, CHR 0x84], [CHR 0xE2, CHR 0x80, CHR 0x85],
      [CHR 0xE2, CHR 0x80, CHR 0x86], [CHR 0xE2, CHR 0x80, CHR 0x87],
      [CHR 0xE2, CHR 0x80, CHR 0x88], [CHR 0xE2, CHR 0x80, CHR 0x89],
      [CHR 0xE2, CHR 0x80, CHR 0x8A], [CHR 0xE2, CHR 0x80, CHR 0xA8],
      [CHR 0xE2, CHR 0x80, CHR 0xA9], [CHR 0xE2, CHR 0x80, CHR 0xAF],
      [CHR 0xE2, CHR 0x81, CHR 0x9F], [CHR 0xE3, CHR 0x80, CHR 0x80],
      [CHR 0xEF, CHR 0xBB, CHR 0xBF]]"

text \<open>The number of bytes of the white-space character a string starts or ends with, if any.\<close>

definition space_before :: "string \<Rightarrow> nat" where
  "space_before s =
     (case List.find (\<lambda>w. take (length w) s = w) white_space of
        Some w \<Rightarrow> length w | None \<Rightarrow> 0)"

definition space_after :: "string \<Rightarrow> nat" where
  "space_after s =
     (case List.find (\<lambda>w. length w \<le> length s \<and> drop (length s - length w) s = w) white_space of
        Some w \<Rightarrow> length w | None \<Rightarrow> 0)"

function trimStart :: "string \<Rightarrow> string" where
  "trimStart s = (if space_before s = 0 then s else trimStart (drop (space_before s) s))"
  by pat_completeness auto
termination
proof (relation "measure length")
  show "wf (measure length)" by simp
next
  fix s :: string
  assume a: "space_before s \<noteq> 0"
  have "space_before [] = 0" by (simp add: space_before_def white_space_def)
  with a have "s \<noteq> []" by auto
  with a show "(drop (space_before s) s, s) \<in> measure length" by simp
qed

function trimEnd :: "string \<Rightarrow> string" where
  "trimEnd s = (if space_after s = 0 then s else trimEnd (take (length s - space_after s) s))"
  by pat_completeness auto
termination
proof (relation "measure length")
  show "wf (measure length)" by simp
next
  fix s :: string
  assume a: "space_after s \<noteq> 0"
  have "space_after [] = 0" by (simp add: space_after_def white_space_def)
  with a have "s \<noteq> []" by auto
  with a show "(take (length s - space_after s) s, s) \<in> measure length" by simp
qed

declare trimStart.simps [simp del]
declare trimEnd.simps [simp del]

definition trim :: "string \<Rightarrow> string" where
  "trim s = trimEnd (trimStart s)"

definition startsWith :: "string \<Rightarrow> string \<Rightarrow> bool" where
  "startsWith s pre = (take (length pre) s = pre)"

text \<open>
  \<^verbatim>\<open>toLowerCase\<close> is applied to chunk keywords, and the result is only compared with the
  empty string and with the words of \<^verbatim>\<open>KNOWN_KEYS\<close>, ASCII words without the letter k. The
  letters A to Z are turned; of the other characters only U+212A becomes an ASCII letter,
  and that letter is k, so turning them or not gives the same comparisons.
\<close>

definition lower_char :: "char \<Rightarrow> char" where
  "lower_char c = (if 65 \<le> (of_char c :: nat) \<and> (of_char c :: nat) \<le> 90
                   then char_of ((of_char c :: nat) + 32) else c)"

definition toLowerCase :: "string \<Rightarrow> string" where
  "toLowerCase s = map lower_char s"

function strip_ws :: "string \<Rightarrow> string" where
  "strip_ws [] = []"
| "strip_ws (c # cs) =
     (if space_before (c # cs) = 0 then c # strip_ws cs
      else strip_ws (drop (space_before (c # cs)) (c # cs)))"
  by pat_completeness auto
termination
  by (relation "measure length") auto

declare strip_ws.simps [simp del]

fun split_on :: "char \<Rightarrow> string \<Rightarrow> string list" where
  "split_on c [] = [[]]"
| "split_on c (x # xs) =
     (if x = c then [] # split_on c xs
      else (case split_on c xs of [] \<Rightarrow> [[x]] | w # ws \<Rightarrow> (x # w) # ws))"

fun join :: "string \<Rightarrow> string list \<Rightarrow> string" where
  "join sep [] = []"
| "join sep [x] = x"
| "join sep (x # y # ys) = x @ sep @ join sep (y # ys)"

text \<open>
  \<^verbatim>\<open>String(v)\<close>. An array prints its elements joined by commas, \<^verbatim>\<open>null\<close> and
  \<^verbatim>\<open>undefined\<close> elements as the empty string. A plain object prints as
  \<^verbatim>\<open>[object Object]\<close>, unless an own \<^verbatim>\<open>toString\<close> property (never callable in parsed JSON)
  hides the inherited method: then the conversion throws a TypeError.
\<close>

fun js_String :: "json \<Rightarrow> error + string" where
  "js_String JUndefined = Inr ''undefined''"
| "js_String JNull = Inr ''null''"
| "js_String (JBool b) = Inr (if b then ''true'' else ''false'')"
| "js_String (JNum n) = Inr (dec_int n)"
| "js_String (JStr s) = Inr s"
| "js_String (JArr xs) =
     (let parts = map (\<lambda>x. if nullish x then Inr [] else js_String x) xs
      in if \<exists>p \<in> set parts. isl p then Inl TypeError
         else Inr (join '','' (map projr parts)))"
| "js_String (JObj kvs) =
     (if ''toString'' \<in> fst ` set kvs then Inl TypeError else Inr ''[object Object]'')"
| "js_String JBuiltin = Inr ''function () { [native code] }''"

text \<open>\<^verbatim>\<open>xs.join(sep)\<close> on an array.\<close>

definition js_join :: "string \<Rightarrow> json list \<Rightarrow> error + string" where
  "js_join sep xs =
     (let parts = map (\<lambda>x. if nullish x then Inr [] else js_String x) xs
      in if \<exists>p \<in> set parts. isl p then Inl TypeError
         else Inr (join sep (map projr parts)))"

text \<open>Running a fallible function over a list, stopping at the first error.\<close>

fun map_err :: "('a \<Rightarrow> error + 'b) \<Rightarrow> 'a list \<Rightarrow> error + 'b list" where
  "map_err f [] = Inr []"
| "map_err f (x # xs) =
     (case f x of Inl e \<Rightarrow> Inl e
      | Inr y \<Rightarrow> (case map_err f xs of Inl e \<Rightarrow> Inl e | Inr ys \<Rightarrow> Inr (y # ys)))"

text \<open>Bytes: \<^verbatim>\<open>slice\<close>, the big-endian \<^verbatim>\<open>DataView\<close> accessors, \<^verbatim>\<open>TypedArray.set\<close>.\<close>

definition slice :: "'a list \<Rightarrow> nat \<Rightarrow> nat \<Rightarrow> 'a list" where
  "slice xs a b = take (b - a) (drop a xs)"



definition be32 :: "u32 \<Rightarrow> byte list" where
  "be32 w = [ucast (drop_bit 24 w), ucast (drop_bit 16 w), ucast (drop_bit 8 w), ucast w]"

definition getUint32 :: "byte list \<Rightarrow> nat \<Rightarrow> error + u32" where
  "getUint32 buf off =
     (if off + 4 > length buf then Inl RangeError
      else Inr (push_bit 24 (ucast (buf ! off)) OR push_bit 16 (ucast (buf ! (off + 1)))
                OR push_bit 8 (ucast (buf ! (off + 2))) OR ucast (buf ! (off + 3))))"


definition byte_char :: "byte \<Rightarrow> char" where
  "byte_char b = char_of (unat b)"

definition char_byte :: "char \<Rightarrow> byte" where
  "char_byte c = of_nat (of_char c)"

text \<open>
  \<^verbatim>\<open>new TextDecoder("utf-8").decode(bytes)\<close>. The decoder of the Encoding Standard keeps the
  bytes seen of the current character, the number of bytes still needed, and the bounds of
  the next byte; a byte outside the bounds ends the character with an error and is read
  again as the start of the next one. An error puts U+FFFD. A well-formed character is put
  as the bytes it was read from.
\<close>

definition replacement :: "byte list" where
  "replacement = [0xEF, 0xBF, 0xBD]"

function utf8_scan :: "byte list \<Rightarrow> nat \<Rightarrow> byte \<Rightarrow> byte \<Rightarrow> byte list \<Rightarrow> byte list" where
  "utf8_scan seen needed lower upper [] = (if needed = 0 then [] else replacement)"
| "utf8_scan seen needed lower upper (b # bs) =
     (if needed = 0
      then (if b \<le> 0x7F then b # utf8_scan [] 0 0x80 0xBF bs
            else if 0xC2 \<le> b \<and> b \<le> 0xDF then utf8_scan [b] 1 0x80 0xBF bs
            else if 0xE0 \<le> b \<and> b \<le> 0xEF
              then utf8_scan [b] 2 (if b = 0xE0 then 0xA0 else 0x80)
                     (if b = 0xED then 0x9F else 0xBF) bs
            else if 0xF0 \<le> b \<and> b \<le> 0xF4
              then utf8_scan [b] 3 (if b = 0xF0 then 0x90 else 0x80)
                     (if b = 0xF4 then 0x8F else 0xBF) bs
            else replacement @ utf8_scan [] 0 0x80 0xBF bs)
      else if lower \<le> b \<and> b \<le> upper
        then (if needed = 1 then seen @ [b] @ utf8_scan [] 0 0x80 0xBF bs
              else utf8_scan (seen @ [b]) (needed - 1) 0x80 0xBF bs)
      else replacement @ utf8_scan [] 0 0x80 0xBF (b # bs))"
  by pat_completeness auto
termination
  by (relation "measure (\<lambda>(seen, needed, lower, upper, bs).
        2 * length bs + (if needed = 0 then 0 else 1))") auto

declare utf8_scan.simps [simp del]

definition utf8_decode :: "byte list \<Rightarrow> string" where
  "utf8_decode bytes =
     map byte_char (utf8_scan [] 0 0x80 0xBF
       (if take 3 bytes = [0xEF, 0xBB, 0xBF] then drop 3 bytes else bytes))"

definition readText :: "byte list \<Rightarrow> nat \<Rightarrow> nat \<Rightarrow> string" where
  "readText buffer start len = utf8_decode (slice buffer start (start + len))"

definition encodeText :: "string \<Rightarrow> byte list" where
  "encodeText s = map char_byte s"

section \<open>CRC32\<close>

text \<open>
  The table is filled by eight rounds of
  \<^verbatim>\<open>c = c & 1 ? 0xedb88320 ^ (c >>> 1) : c >>> 1\<close> for each index; every operation is a
  32-bit one.
\<close>

definition crc_bit_step :: "u32 \<Rightarrow> u32" where
  "crc_bit_step c = (if c AND 1 \<noteq> 0 then 0xedb88320 XOR drop_bit 1 c else drop_bit 1 c)"

definition crcTable :: "u32 list" where
  "crcTable = map (\<lambda>n. (crc_bit_step ^^ 8) (word_of_nat n)) [0..<256]"

definition crc_update :: "u32 \<Rightarrow> byte \<Rightarrow> u32" where
  "crc_update crc b = (crcTable ! unat ((crc XOR ucast b) AND 0xff)) XOR drop_bit 8 crc"

definition crc32 :: "byte list \<Rightarrow> u32" where
  "crc32 buf = foldl crc_update 0xffffffff buf XOR 0xffffffff"

text \<open>
  The CRC of the PNG specification, from its words. The generator polynomial is
  \<open>x\<^sup>3\<^sup>2 + x\<^sup>2\<^sup>6 + x\<^sup>2\<^sup>3 + x\<^sup>2\<^sup>2 + x\<^sup>1\<^sup>6 + x\<^sup>1\<^sup>2 + x\<^sup>1\<^sup>1 + x\<^sup>1\<^sup>0 + x\<^sup>8 + x\<^sup>7 + x\<^sup>5 + x\<^sup>4 + x\<^sup>2 + x + 1\<close>;
  the least significant bit of the 32-bit register is the coefficient of \<open>x\<^sup>3\<^sup>1\<close>, which
  makes the polynomial below \<open>x\<^sup>3\<^sup>2\<close> the word 0xEDB88320. The register starts as all ones,
  the data bits enter one at a time, those of a byte from the least significant to the most
  significant, and the register is inverted at the end.
\<close>

definition png_polynomial :: u32 where
  "png_polynomial =
     fold (\<lambda>k. set_bit (31 - k)) [26, 23, 22, 16, 12, 11, 10, 8, 7, 5, 4, 2, 1, 0] 0"

definition crc_shift :: "u32 \<Rightarrow> bool \<Rightarrow> u32" where
  "crc_shift r b = (if bit r 0 \<noteq> b then drop_bit 1 r XOR png_polynomial else drop_bit 1 r)"

definition byte_bits :: "byte \<Rightarrow> bool list" where
  "byte_bits x = map (bit x) [0..<8]"

definition png_crc :: "byte list \<Rightarrow> u32" where
  "png_crc buf = foldl crc_shift 0xFFFFFFFF (concat (map byte_bits buf)) XOR 0xFFFFFFFF"

section \<open>The character record\<close>

text \<open>
  \<^verbatim>\<open>Character\<close> of \<^verbatim>\<open>types.ts\<close>. The type annotations are erased at run time and
  \<^verbatim>\<open>buildCharacter\<close> stores whatever the card holds, so every field read from a card is a
  value; an absent optional field is \<^verbatim>\<open>undefined\<close>.
\<close>

record Character =
  char_id :: string
  name :: json
  description :: json
  personality :: json
  firstMessage :: json
  alternate_greetings :: json
  avatarUrl :: string
  scenario :: json
  character_book :: json
  tags :: json
  qrList :: json
  originalFilename :: json
  sourceUrl :: json
  cardUrl :: json
  creator_notes :: json
  mes_example :: json
  system_prompt :: json
  post_history_instructions :: json
  creator :: json
  character_version :: json
  extensions :: json
  rawData :: json
  importDate :: json
  updatedAt :: json
  extra_qr_data :: json
  qrFileName :: json
  isFavorite :: json
  folder :: json
  importFormat :: "import_format option"

section \<open>Import: buildCharacter\<close>

text \<open>
  The envelope rule at the head of \<^verbatim>\<open>buildCharacter\<close>; reading \<^verbatim>\<open>rawRoot.spec\<close> throws
  on \<^verbatim>\<open>null\<close>.
\<close>

definition unwrap :: "json \<Rightarrow> error + json" where
  "unwrap rawRoot =
     (if nullish rawRoot then Inl TypeError
      else if get rawRoot ''spec'' = JStr ''chara_card_v2'' \<and> truthy (get rawRoot ''data'')
        then Inr (get rawRoot ''data'')
      else if \<not> truthy (get rawRoot ''name'') \<and> truthy (optget (get rawRoot ''data'') ''name'')
        then Inr (get rawRoot ''data'')
      else Inr rawRoot)"

text \<open>\<^verbatim>\<open>d.tags\<close>: an array is printed, trimmed and filtered; a string is split at commas.\<close>

definition trimmed_nonempty :: "string list \<Rightarrow> json" where
  "trimmed_nonempty ws = JArr (map JStr (filter (\<lambda>t. t \<noteq> []) (map trim ws)))"

definition import_tags :: "json \<Rightarrow> error + json" where
  "import_tags t =
     (case t of
        JArr xs \<Rightarrow> (case map_err js_String xs of Inl e \<Rightarrow> Inl e
                   | Inr ws \<Rightarrow> Inr (trimmed_nonempty ws))
      | JStr s \<Rightarrow> Inr (trimmed_nonempty (split_on CHR '','' s))
      | _ \<Rightarrow> Inr (JArr []))"

text \<open>
  One lorebook entry with the editor's helper:
  \<^verbatim>\<open>{...e, keysInput: Array.isArray(e.keys) ? e.keys.join(", ") : ""}\<close>.
\<close>

definition add_keysInput :: "json \<Rightarrow> error + json" where
  "add_keysInput e =
     (if nullish e then Inl TypeError
      else (case get e ''keys'' of
              JArr ks \<Rightarrow> (case js_join '', '' ks of Inl err \<Rightarrow> Inl err
                         | Inr s \<Rightarrow> Inr (JObj (obj_set ''keysInput'' (JStr s) (spread e))))
            | _ \<Rightarrow> Inr (JObj (obj_set ''keysInput'' (JStr []) (spread e)))))"

text \<open>\<^verbatim>\<open>x.map(f)\<close>: only an array has the method.\<close>

definition js_map :: "(json \<Rightarrow> error + json) \<Rightarrow> json \<Rightarrow> error + json" where
  "js_map f x =
     (case x of JArr xs \<Rightarrow> (case map_err f xs of Inl e \<Rightarrow> Inl e | Inr ys \<Rightarrow> Inr (JArr ys))
      | _ \<Rightarrow> Inl TypeError)"

definition import_book :: "json \<Rightarrow> error + json" where
  "import_book cb =
     (if truthy (optget cb ''entries'')
      then (case js_map add_keysInput (get cb ''entries'') of Inl e \<Rightarrow> Inl e
            | Inr es \<Rightarrow> Inr (JObj (obj_set ''entries'' es (spread cb))))
      else Inr cb)"

definition buildCharacter ::
  "json \<Rightarrow> string \<Rightarrow> string \<Rightarrow> string \<Rightarrow> import_format \<Rightarrow> int \<Rightarrow> error + Character" where
  "buildCharacter rawRoot fileName avatar ident fmt now =
     (case unwrap rawRoot of Inl e \<Rightarrow> Inl e
      | Inr d \<Rightarrow>
     (case import_tags (get d ''tags'') of Inl e \<Rightarrow> Inl e
      | Inr tgs \<Rightarrow>
     (case import_book (get d ''character_book'') of Inl e \<Rightarrow> Inl e
      | Inr book \<Rightarrow>
        Inr \<lparr> char_id = ident,
              name = jor (get d ''name'') (JStr ''Unknown''),
              description = jor (get d ''description'') (JStr []),
              personality = jor (get d ''personality'') (JStr []),
              firstMessage = jor (get d ''first_mes'') (jor (get d ''firstMessage'')
                               (jor (get d ''intro'') (jor (get d ''greeting'') (JStr [])))),
              alternate_greetings = jor (get d ''alternate_greetings'')
                               (jor (get d ''alternate_greeting'') (JArr [])),
              avatarUrl = avatar,
              scenario = jor (get d ''scenario'') (JStr []),
              character_book = book,
              tags = tgs,
              qrList = jor (get d ''qrList'') (JArr []),
              originalFilename = JStr fileName,
              sourceUrl = jor (get d ''sourceUrl'') (JStr []),
              cardUrl = JUndefined,
              creator_notes = jor (get d ''creator_notes'') (jor (get d ''creatorcomment'') (JStr [])),
              mes_example = jor (get d ''mes_example'') (JStr []),
              system_prompt = jor (get d ''system_prompt'') (JStr []),
              post_history_instructions = jor (get d ''post_history_instructions'') (JStr []),
              creator = jor (get d ''creator'') (JStr []),
              character_version = jor (get d ''character_version'') (JStr []),
              extensions = jor (get d ''extensions'') (JObj []),
              rawData = d,
              importDate = JNum now,
              updatedAt = JUndefined,
              extra_qr_data = get d ''extra_qr_data'',
              qrFileName = JUndefined,
              isFavorite = JUndefined,
              folder = JUndefined,
              importFormat = Some fmt \<rparr>)))"

section \<open>Export: buildExportData\<close>

text \<open>\<^verbatim>\<open>const { keysInput, ...rest } = e\<close>: destructuring throws on \<^verbatim>\<open>null\<close> and \<^verbatim>\<open>undefined\<close>.\<close>

definition strip_keysInput :: "json \<Rightarrow> error + json" where
  "strip_keysInput e =
     (if nullish e then Inl TypeError
      else Inr (JObj (filter (\<lambda>(k, v). k \<noteq> ''keysInput'') (spread e))))"

definition export_book :: "json \<Rightarrow> (string \<times> json) list \<Rightarrow> error + json" where
  "export_book cb base =
     (if truthy cb
      then (case js_map strip_keysInput (jor (get cb ''entries'') (JArr [])) of Inl e \<Rightarrow> Inl e
            | Inr es \<Rightarrow> Inr (JObj (obj_set ''entries'' es (spread cb))))
      else Inr (obj_get base ''character_book''))"

definition editedFields :: "Character \<Rightarrow> json \<Rightarrow> (string \<times> json) list" where
  "editedFields c book =
     [(''name'', name c),
      (''description'', description c),
      (''personality'', personality c),
      (''first_mes'', firstMessage c),
      (''alternate_greetings'', jor (alternate_greetings c) (JArr [])),
      (''scenario'', jor (scenario c) (JStr [])),
      (''mes_example'', jor (mes_example c) (JStr [])),
      (''system_prompt'', jor (system_prompt c) (JStr [])),
      (''post_history_instructions'', jor (post_history_instructions c) (JStr [])),
      (''creator_notes'', jor (creator_notes c) (JStr [])),
      (''creator'', jor (creator c) (JStr [])),
      (''character_version'', jor (character_version c) (JStr [])),
      (''tags'', jor (tags c) (JArr [])),
      (''extensions'', jor (extensions c) (JObj [])),
      (''character_book'', book)]"

definition export_base :: "Character \<Rightarrow> (string \<times> json) list" where
  "export_base c = (if truthy (rawData c) then spread (rawData c) else [])"

definition buildExportData :: "Character \<Rightarrow> error + json" where
  "buildExportData c =
     (let base = export_base c
      in case export_book (character_book c) base of Inl e \<Rightarrow> Inl e
         | Inr book \<Rightarrow>
             Inr (JObj [(''spec'', JStr ''chara_card_v2''),
                        (''spec_version'', JStr ''2.0''),
                        (''data'', JObj (overlay base (editedFields c book)))]))"

text \<open>The keys of \<^verbatim>\<open>editedFields\<close>: the typed, editable part of a card.\<close>

definition typed_keys :: "string list" where
  "typed_keys = [''name'', ''description'', ''personality'', ''first_mes'', ''alternate_greetings'',
     ''scenario'', ''mes_example'', ''system_prompt'', ''post_history_instructions'',
     ''creator_notes'', ''creator'', ''character_version'', ''tags'', ''extensions'',
     ''character_book'']"

text \<open>
  One export, import, export cycle on an exported envelope: the envelope is read back by
  \<^verbatim>\<open>buildCharacter\<close> and the record is exported again.
\<close>

definition reimport_export ::
  "string \<Rightarrow> string \<Rightarrow> string \<Rightarrow> import_format \<Rightarrow> int \<Rightarrow> json \<Rightarrow> error + json" where
  "reimport_export fileName avatar ident fmt now env =
     (case buildCharacter env fileName avatar ident fmt now of Inl e \<Rightarrow> Inl e
      | Inr c \<Rightarrow> buildExportData c)"

text \<open>The cycle repeated \<open>k\<close> times.\<close>

fun repeat_cycle ::
  "nat \<Rightarrow> string \<Rightarrow> string \<Rightarrow> string \<Rightarrow> import_format \<Rightarrow> int \<Rightarrow> json \<Rightarrow> error + json" where
  "repeat_cycle 0 fileName avatar ident fmt now env = Inr env"
| "repeat_cycle (Suc k) fileName avatar ident fmt now env =
     (case reimport_export fileName avatar ident fmt now env of Inl e \<Rightarrow> Inl e
      | Inr env' \<Rightarrow> repeat_cycle k fileName avatar ident fmt now env')"

section \<open>Platform functions\<close>

text \<open>
  The browser functions the codec calls are parameters of the model: \<^verbatim>\<open>JSON.parse\<close>
  (\<open>None\<close> when it throws), \<^verbatim>\<open>JSON.stringify\<close>, \<^verbatim>\<open>atob\<close> followed by the copy of its
  result into a byte array (\<open>None\<close> when \<^verbatim>\<open>atob\<close> throws), \<^verbatim>\<open>btoa\<close> of a byte sequence,
  and a \<^verbatim>\<open>DecompressionStream\<close> of either format read to its end (\<open>None\<close> when it fails).
\<close>

datatype compression_format = DeflateRaw | Deflate

record platform =
  json_parse :: "string \<Rightarrow> json option"
  json_stringify :: "json \<Rightarrow> string"
  atob :: "string \<Rightarrow> byte list option"
  btoa :: "byte list \<Rightarrow> string"
  inflate :: "compression_format \<Rightarrow> byte list \<Rightarrow> byte list option"

definition decodeBase64Utf8 :: "platform \<Rightarrow> string \<Rightarrow> error + string" where
  "decodeBase64Utf8 p base64 =
     (let clean = strip_ws base64
      in case atob p clean of
           Some bytes \<Rightarrow> Inr (utf8_decode bytes)
         | None \<Rightarrow> if startsWith (trim clean) ''{'' then Inr clean else Inl Base64Failed)"


definition decompressZlib :: "platform \<Rightarrow> byte list \<Rightarrow> string" where
  "decompressZlib p data =
     (case inflate p DeflateRaw data of Some out \<Rightarrow> utf8_decode out
      | None \<Rightarrow>
     (case inflate p Deflate data of Some out \<Rightarrow> utf8_decode out
      | None \<Rightarrow>
        if length data > 6
        then (case inflate p DeflateRaw (slice data 2 (length data - 4)) of
                Some out \<Rightarrow> utf8_decode out | None \<Rightarrow> [])
        else []))"

section \<open>Decoding a PNG: parseCharacterCard\<close>

definition PNG_SIG :: "byte list" where
  "PNG_SIG = [137, 80, 78, 71, 13, 10, 26, 10]"

definition KNOWN_KEYS :: "string list" where
  "KNOWN_KEYS = [''chara'', ''character'', ''tavern'', ''sillytavern'', ''ccv3'']"

record scan_state =
  characterData :: json
  fallbackChunks :: "string list"

text \<open>The first index in \<open>[i, stop)\<close> holding a zero byte: the \<^verbatim>\<open>sep\<close> loops.\<close>

function find_nul :: "byte list \<Rightarrow> nat \<Rightarrow> nat \<Rightarrow> nat option" where
  "find_nul buf i stop =
     (if i < stop then (if i < length buf \<and> buf ! i = 0 then Some i else find_nul buf (Suc i) stop)
      else None)"
  by pat_completeness auto
termination
  by (relation "measure (\<lambda>(buf, i, stop). stop - i)") auto

text \<open>
  The \<^verbatim>\<open>iTXt\<close> loop that skips the language tag and the translated keyword: the index
  after the second zero byte met from \<open>cur\<close> on.
\<close>

function find_text_start :: "byte list \<Rightarrow> nat \<Rightarrow> nat \<Rightarrow> nat \<Rightarrow> nat option" where
  "find_text_start buf cur nc dataEnd =
     (if cur < dataEnd
      then (if cur < length buf \<and> buf ! cur = 0
            then (if Suc nc = 2 then Some (cur + 1) else find_text_start buf (Suc cur) (Suc nc) dataEnd)
            else find_text_start buf (Suc cur) nc dataEnd)
      else None)"
  by pat_completeness auto
termination
  by (relation "measure (\<lambda>(buf, cur, nc, dataEnd). dataEnd - cur)") auto

text \<open>
  \<^verbatim>\<open>try { characterData = JSON.parse(decodeBase64Utf8(txt)); }
  catch { try { characterData = JSON.parse(txt); } catch { } }\<close>:
  the value assigned, if any.
\<close>

definition parse_card_text :: "platform \<Rightarrow> string \<Rightarrow> json option" where
  "parse_card_text p txt =
     (case decodeBase64Utf8 p txt of
        Inl e \<Rightarrow> json_parse p txt
      | Inr s \<Rightarrow> (case json_parse p s of Some v \<Rightarrow> Some v | None \<Rightarrow> json_parse p txt))"

definition interpret_text :: "platform \<Rightarrow> string \<Rightarrow> scan_state \<Rightarrow> scan_state" where
  "interpret_text p txt st =
     (case parse_card_text p txt of Some v \<Rightarrow> st\<lparr>characterData := v\<rparr> | None \<Rightarrow> st)"

definition looks_like_card :: "string \<Rightarrow> bool" where
  "looks_like_card txt = (startsWith (trim txt) ''{'' \<or> startsWith (trim txt) ''ey'')"

text \<open>
  The three chunk branches end in the same two statements: the text is noted as a fallback
  candidate if it looks like a card, and it is interpreted if the keyword is a known one.
\<close>

definition record_text :: "platform \<Rightarrow> bool \<Rightarrow> string \<Rightarrow> scan_state \<Rightarrow> scan_state" where
  "record_text p known txt st =
     (let st1 = (if looks_like_card txt then st\<lparr>fallbackChunks := fallbackChunks st @ [txt]\<rparr>
                 else st)
      in if known then interpret_text p txt st1 else st1)"

text \<open>
  What each branch reads from the chunk data in \<open>[dataStart, dataEnd)\<close>: whether the
  keyword counts as known, and the text; \<open>None\<close> when the branch does nothing.
\<close>

definition text_chunk :: "byte list \<Rightarrow> nat \<Rightarrow> nat \<Rightarrow> (bool \<times> string) option" where
  "text_chunk buf dataStart dataEnd =
     (case find_nul buf dataStart dataEnd of None \<Rightarrow> None
      | Some sep \<Rightarrow>
          let kw = toLowerCase (readText buf dataStart (sep - dataStart));
              txt = readText buf (sep + 1) (dataEnd - sep - 1)
          in Some (kw \<in> set KNOWN_KEYS, txt))"

definition ztxt_chunk :: "platform \<Rightarrow> byte list \<Rightarrow> nat \<Rightarrow> nat \<Rightarrow> (bool \<times> string) option" where
  "ztxt_chunk p buf dataStart dataEnd =
     (case find_nul buf dataStart dataEnd of None \<Rightarrow> None
      | Some sep \<Rightarrow>
          let kw = toLowerCase (readText buf dataStart (sep - dataStart));
              compressed = slice buf (sep + 2) dataEnd;
              txt = decompressZlib p compressed
          in if txt \<noteq> [] then Some (kw \<in> set KNOWN_KEYS, txt) else None)"

definition itxt_chunk :: "platform \<Rightarrow> byte list \<Rightarrow> nat \<Rightarrow> nat \<Rightarrow> (bool \<times> string) option" where
  "itxt_chunk p buf dataStart dataEnd =
     (case find_nul buf dataStart dataEnd of None \<Rightarrow> None
      | Some sep \<Rightarrow>
          let kw = toLowerCase (readText buf dataStart (sep - dataStart));
              compFlag = (if sep + 1 < length buf then Some (buf ! (sep + 1)) else None)
          in (case find_text_start buf (sep + 3) 0 dataEnd of None \<Rightarrow> None
              | Some textStart \<Rightarrow>
                  if textStart < dataEnd
                  then (let raw = slice buf textStart dataEnd;
                            txt = (if compFlag = Some 1 then decompressZlib p raw
                                   else readText buf textStart (dataEnd - textStart))
                        in if txt \<noteq> [] then Some (kw \<in> set KNOWN_KEYS \<or> kw = [], txt)
                           else None)
                  else None))"

definition chunk_reading ::
  "platform \<Rightarrow> byte list \<Rightarrow> string \<Rightarrow> nat \<Rightarrow> nat \<Rightarrow> (bool \<times> string) option" where
  "chunk_reading p buf type dataStart dataEnd =
     (if type = ''tEXt'' then text_chunk buf dataStart dataEnd
      else if type = ''zTXt'' then ztxt_chunk p buf dataStart dataEnd
      else if type = ''iTXt'' then itxt_chunk p buf dataStart dataEnd
      else None)"

definition process_chunk ::
  "platform \<Rightarrow> byte list \<Rightarrow> string \<Rightarrow> nat \<Rightarrow> nat \<Rightarrow> scan_state \<Rightarrow> scan_state" where
  "process_chunk p buf type dataStart dataEnd st =
     (case chunk_reading p buf type dataStart dataEnd of None \<Rightarrow> st
      | Some (known, txt) \<Rightarrow> record_text p known txt st)"

text \<open>
  The chunk walk. \<^verbatim>\<open>getUint32\<close> throws a RangeError when it reads past the buffer, so the
  walk returns an error or the state it ends in.
\<close>

function scanChunks :: "platform \<Rightarrow> byte list \<Rightarrow> nat \<Rightarrow> scan_state \<Rightarrow> error + scan_state" where
  "scanChunks p buf offset st =
     (if offset < length buf
      then (if offset + 8 > length buf then Inr st
            else (case getUint32 buf offset of Inl e \<Rightarrow> Inl e
                  | Inr w \<Rightarrow>
                      let len = unat w;
                          type = readText buf (offset + 4) 4;
                          dataStart = offset + 8;
                          dataEnd = dataStart + len
                      in if dataEnd > length buf then Inr st
                         else scanChunks p buf (dataStart + len + 4)
                                (process_chunk p buf type dataStart dataEnd st)))
      else Inr st)"
  by pat_completeness auto
termination
  by (relation "measure (\<lambda>(p, buf, offset, st). length buf - offset)") auto

text \<open>
  One fallback candidate: the base64 attempt, and the raw attempt only when the first one
  threw. Reading \<^verbatim>\<open>d.name\<close> throws on \<^verbatim>\<open>null\<close>, which the \<^verbatim>\<open>catch\<close> takes like a parse
  error.
\<close>

definition has_name :: "json \<Rightarrow> bool" where
  "has_name d = (truthy (get d ''name'') \<or> truthy (optget (get d ''data'') ''name''))"

definition try_raw :: "platform \<Rightarrow> string \<Rightarrow> json option" where
  "try_raw p chunk =
     (case json_parse p chunk of None \<Rightarrow> None
      | Some d \<Rightarrow> if nullish d then None else if has_name d then Some d else None)"

definition try_candidate :: "platform \<Rightarrow> string \<Rightarrow> json option" where
  "try_candidate p chunk =
     (case decodeBase64Utf8 p chunk of Inl e \<Rightarrow> try_raw p chunk
      | Inr s \<Rightarrow> (case json_parse p s of None \<Rightarrow> try_raw p chunk
                  | Some d \<Rightarrow> if nullish d then try_raw p chunk
                              else if has_name d then Some d else None))"

fun fallbackScan :: "platform \<Rightarrow> string list \<Rightarrow> json option" where
  "fallbackScan p [] = None"
| "fallbackScan p (chunk # rest) =
     (case try_candidate p chunk of Some d \<Rightarrow> Some d | None \<Rightarrow> fallbackScan p rest)"

text \<open>\<^verbatim>\<open>parseCharacterCard\<close> up to the point where the card data has been found or not.\<close>

definition findCharacterData :: "platform \<Rightarrow> byte list \<Rightarrow> error + json" where
  "findCharacterData p buf =
     (if take 8 buf \<noteq> PNG_SIG then Inl NotAPng
      else (case scanChunks p buf 8 \<lparr>characterData = JNull, fallbackChunks = []\<rparr> of
              Inl e \<Rightarrow> Inl e
            | Inr st \<Rightarrow>
                let cd = (if \<not> truthy (characterData st) \<and> fallbackChunks st \<noteq> []
                          then (case fallbackScan p (fallbackChunks st) of
                                  Some d \<Rightarrow> d | None \<Rightarrow> characterData st)
                          else characterData st)
                in if \<not> truthy cd then Inl NoCardData else Inr cd))"

definition parseCharacterCard ::
  "platform \<Rightarrow> byte list \<Rightarrow> string \<Rightarrow> string \<Rightarrow> string \<Rightarrow> int \<Rightarrow> error + Character" where
  "parseCharacterCard p buf fileName avatar ident now =
     (case findCharacterData p buf of Inl e \<Rightarrow> Inl e
      | Inr cd \<Rightarrow> buildCharacter cd fileName avatar ident Png now)"

text \<open>
  A file seen as its chunks. A chunk is the four bytes of its type, its data and the four
  bytes stored as its CRC (which the walk never checks); \<open>reading\<close> is what the walk reads
  from a chunk's data, and \<open>run_chunks\<close> is the walk's effect chunk by chunk. A tail is
  truncated when it is too short for a chunk header or declares more data than it has.
\<close>

type_synonym chunk = "byte list \<times> byte list \<times> byte list"

fun chunk_bytes :: "chunk \<Rightarrow> byte list" where
  "chunk_bytes (type, payload, crc) =
     be32 (word_of_nat (length payload)) @ type @ payload @ crc"

fun chunk_ok :: "chunk \<Rightarrow> bool" where
  "chunk_ok (type, payload, crc) =
     (length type = 4 \<and> length crc = 4 \<and> length payload < 2 ^ 32)"

definition reading :: "platform \<Rightarrow> chunk \<Rightarrow> (bool \<times> string) option" where
  "reading p c =
     chunk_reading p (fst (snd c)) (readText (fst c) 0 4) 0 (length (fst (snd c)))"

definition chunk_effect :: "platform \<Rightarrow> chunk \<Rightarrow> scan_state \<Rightarrow> scan_state" where
  "chunk_effect p c st =
     (case reading p c of None \<Rightarrow> st | Some (known, txt) \<Rightarrow> record_text p known txt st)"

fun run_chunks :: "platform \<Rightarrow> chunk list \<Rightarrow> scan_state \<Rightarrow> scan_state" where
  "run_chunks p [] st = st"
| "run_chunks p (c # cs) st = run_chunks p cs (chunk_effect p c st)"

definition truncated :: "byte list \<Rightarrow> bool" where
  "truncated tail =
     (length tail < 8 \<or>
      (case getUint32 tail 0 of Inl e \<Rightarrow> True | Inr w \<Rightarrow> 8 + unat w > length tail))"

definition png_file :: "chunk list \<Rightarrow> byte list \<Rightarrow> byte list" where
  "png_file cs tail = PNG_SIG @ concat (map chunk_bytes cs) @ tail"

definition initial_state :: scan_state where
  "initial_state = \<lparr>characterData = JNull, fallbackChunks = []\<rparr>"

text \<open>The texts of the chunks that are noted as fallback candidates, in file order.\<close>

definition candidates :: "platform \<Rightarrow> chunk list \<Rightarrow> string list" where
  "candidates p cs =
     concat (map (\<lambda>c. case reading p c of None \<Rightarrow> []
                       | Some (known, txt) \<Rightarrow> if looks_like_card txt then [txt] else []) cs)"

text \<open>
  The value a chunk assigns to \<^verbatim>\<open>characterData\<close>: that of a chunk read under a keyword that
  counts as known and whose text parses.
\<close>

definition card_chunk_value :: "platform \<Rightarrow> chunk \<Rightarrow> json option" where
  "card_chunk_value p c =
     (case reading p c of None \<Rightarrow> None
      | Some (known, txt) \<Rightarrow> if known then parse_card_text p txt else None)"

section \<open>Encoding a PNG: createTavernPng\<close>

text \<open>
  The chunk buffer: length, type \<^verbatim>\<open>tEXt\<close>, keyword \<^verbatim>\<open>chara\<close>, a zero byte, the text, and
  the CRC of bytes 4 up to the trailer, written over the last four bytes.
\<close>

definition keywordBytes :: "byte list" where
  "keywordBytes = encodeText ''chara''"

definition chunkBuffer :: "byte list \<Rightarrow> byte list" where
  "chunkBuffer textBytes =
     (let chunkLength = length keywordBytes + 1 + length textBytes;
          filled = be32 (word_of_nat chunkLength) @ [116, 69, 88, 116] @ keywordBytes @ [0]
                   @ textBytes @ [0, 0, 0, 0];
          crcInput = slice filled 4 (4 + 4 + chunkLength)
      in take (4 + 4 + chunkLength) filled @ be32 (crc32 crcInput))"






section \<open>Quick-reply export objects\<close>

text \<open>
  The object \<^verbatim>\<open>exportQrData\<close> serialises; the parameter default \<^verbatim>\<open>{}\<close> stands in for
  \<^verbatim>\<open>undefined\<close>.
\<close>

definition qr_scaffold :: "(string \<times> json) list" where
  "qr_scaffold =
     [(''version'', JNum 2), (''name'', JStr ''QR Export''),
      (''disableSend'', JBool False), (''placeBeforeInput'', JBool False),
      (''injectInput'', JBool False), (''color'', JStr ''rgba(0, 0, 0, 0)''),
      (''onlyBorderColor'', JBool False)]"

definition exportQrData :: "json \<Rightarrow> json \<Rightarrow> (string \<times> json) list" where
  "exportQrData qrs extraData =
     (let extra = (if extraData = JUndefined then JObj [] else extraData)
      in obj_set ''qrList'' qrs (overlay qr_scaffold (spread extra)))"

text \<open>
  The object written as the quick-reply file of a ZIP, in \<^verbatim>\<open>exportCharacterData\<close> and in
  \<^verbatim>\<open>exportBulkCharacters\<close>:
  \<^verbatim>\<open>{ version: 2, name: `${name} QR`, qrList, ...(extra_qr_data || {}) }\<close>.
\<close>

definition zip_qrData :: "Character \<Rightarrow> error + (string \<times> json) list" where
  "zip_qrData c =
     (case js_String (name c) of Inl e \<Rightarrow> Inl e
      | Inr n \<Rightarrow>
          Inr (overlay [(''version'', JNum 2), (''name'', JStr (n @ '' QR'')),
                        (''qrList'', qrList c)]
                 (spread (jor (extra_qr_data c) (JObj [])))))"

section \<open>A platform instance and example data\<close>

text \<open>
  Base64 as \<^verbatim>\<open>atob\<close> and \<^verbatim>\<open>btoa\<close> do it: ASCII white space (tab, line feed, form feed,
  carriage return, space) is dropped, one or two closing \<^verbatim>\<open>=\<close> of a text whose length is a
  multiple of four are dropped, a length of one more than a multiple of four or a character
  outside the alphabet is an error.
\<close>

definition b64_alphabet :: string where
  "b64_alphabet = ''ABCDEFGHIJKLMNOPQRSTUVWXYZabcdefghijklmnopqrstuvwxyz0123456789+/''"

fun index_of :: "'a \<Rightarrow> 'a list \<Rightarrow> nat option" where
  "index_of c [] = None"
| "index_of c (x # xs) = (if x = c then Some 0 else map_option Suc (index_of c xs))"

fun b64_bytes :: "nat list \<Rightarrow> byte list" where
  "b64_bytes (a # b # c # d # rest) =
     [of_nat (a * 4 + b div 16), of_nat ((b mod 16) * 16 + c div 4), of_nat ((c mod 4) * 64 + d)]
     @ b64_bytes rest"
| "b64_bytes [a, b, c] = [of_nat (a * 4 + b div 16), of_nat ((b mod 16) * 16 + c div 4)]"
| "b64_bytes [a, b] = [of_nat (a * 4 + b div 16)]"
| "b64_bytes xs = []"

definition drop_padding :: "string \<Rightarrow> string" where
  "drop_padding s =
     (if length s mod 4 = 0 \<and> s \<noteq> []
      then (if last s = CHR ''=''
            then (if butlast s \<noteq> [] \<and> last (butlast s) = CHR ''='' then butlast (butlast s)
                  else butlast s)
            else s)
      else s)"

definition drop_ascii_space :: "string \<Rightarrow> string" where
  "drop_ascii_space s =
     filter (\<lambda>c. c \<notin> set [CHR 0x09, CHR 0x0A, CHR 0x0C, CHR 0x0D, CHR 0x20]) s"

definition base64_decode :: "string \<Rightarrow> byte list option" where
  "base64_decode s =
     (let t = drop_padding (drop_ascii_space s);
          vals = map (\<lambda>c. index_of c b64_alphabet) t
      in if length t mod 4 = 1 \<or> None \<in> set vals then None
         else Some (b64_bytes (map the vals)))"

fun b64_chars :: "nat list \<Rightarrow> string" where
  "b64_chars (a # b # c # rest) =
     [b64_alphabet ! (a div 4), b64_alphabet ! ((a mod 4) * 16 + b div 16),
      b64_alphabet ! ((b mod 16) * 4 + c div 64), b64_alphabet ! (c mod 64)] @ b64_chars rest"
| "b64_chars [a, b] =
     [b64_alphabet ! (a div 4), b64_alphabet ! ((a mod 4) * 16 + b div 16),
      b64_alphabet ! ((b mod 16) * 4), CHR ''='']"
| "b64_chars [a] = [b64_alphabet ! (a div 4), b64_alphabet ! ((a mod 4) * 16), CHR ''='', CHR ''='']"
| "b64_chars [] = []"

definition base64_encode :: "byte list \<Rightarrow> string" where
  "base64_encode bs = b64_chars (map unat bs)"

text \<open>
  Compact \<^verbatim>\<open>JSON.stringify\<close> for values whose strings need no escape beyond the quote and
  the backslash: properties holding \<^verbatim>\<open>undefined\<close> are left out, and \<^verbatim>\<open>undefined\<close> in
  an array is written \<^verbatim>\<open>null\<close>.
\<close>

definition quote :: "string \<Rightarrow> string" where
  "quote s = [CHR 0x22] @ concat (map (\<lambda>c. if c = CHR 0x22 \<or> c = CHR 0x5C then [CHR 0x5C, c] else [c]) s)
             @ [CHR 0x22]"

fun stringify :: "json \<Rightarrow> string" where
  "stringify JUndefined = ''null''"
| "stringify JBuiltin = ''null''"
| "stringify JNull = ''null''"
| "stringify (JBool b) = (if b then ''true'' else ''false'')"
| "stringify (JNum n) = dec_int n"
| "stringify (JStr s) = quote s"
| "stringify (JArr xs) = ''['' @ join '','' (map stringify xs) @ '']''"
| "stringify (JObj kvs) =
     ''{'' @ join '',''
        (map (\<lambda>kv. quote (fst kv) @ '':'' @ stringify (snd kv))
           (filter (\<lambda>kv. snd kv \<noteq> JUndefined \<and> snd kv \<noteq> JBuiltin) kvs)) @ ''}''"

text \<open>\<^verbatim>\<open>JSON.parse\<close> on the texts the examples use; it throws on any other text.\<close>

definition example_json_parse :: "string \<Rightarrow> json option" where
  \<open>example_json_parse = map_of
     [(''{"name":"First"}'', JObj [(''name'', JStr ''First'')]),
      (''{"name":"Second"}'', JObj [(''name'', JStr ''Second'')]),
      (''{"description":"x"}'', JObj [(''description'', JStr ''x'')]),
      (''0'', JNum 0),
      (''{"name":"Aria","description":"A guide."}'',
         JObj [(''name'', JStr ''Aria''), (''description'', JStr ''A guide.'')]),
      (''{"name":"Aria","description":"Aguide."}'',
         JObj [(''name'', JStr ''Aria''), (''description'', JStr ''Aguide.'')]),
      (''{"name":""}'', JObj [(''name'', JStr [])]),
      (''{"name":"Aria"}'', JObj [(''name'', JStr ''Aria'')])]\<close>

definition example_platform :: platform where
  "example_platform =
     \<lparr> json_parse = example_json_parse,
       json_stringify = stringify,
       atob = base64_decode,
       btoa = base64_encode,
       inflate = (\<lambda>fmt data. None) \<rparr>"

text \<open>The record the editor starts a new character from, and a \<^verbatim>\<open>tEXt\<close> chunk with its CRC.\<close>

definition blank_character :: Character where
  "blank_character =
     \<lparr> char_id = [], name = JStr [], description = JStr [], personality = JStr [],
       firstMessage = JStr [], alternate_greetings = JArr [], avatarUrl = [],
       scenario = JStr [], character_book = JObj [(''entries'', JArr [])], tags = JArr [],
       qrList = JArr [], originalFilename = JStr [], sourceUrl = JStr [], cardUrl = JStr [],
       creator_notes = JUndefined, mes_example = JUndefined, system_prompt = JUndefined,
       post_history_instructions = JUndefined, creator = JUndefined,
       character_version = JUndefined, extensions = JUndefined, rawData = JUndefined,
       importDate = JUndefined, updatedAt = JUndefined, extra_qr_data = JObj [],
       qrFileName = JUndefined, isFavorite = JUndefined, folder = JUndefined,
       importFormat = None \<rparr>"

definition text_payload :: "string \<Rightarrow> string \<Rightarrow> byte list" where
  "text_payload keyword txt = encodeText keyword @ [0] @ encodeText txt"

definition tEXt :: "string \<Rightarrow> string \<Rightarrow> chunk" where
  "tEXt keyword txt =
     (encodeText ''tEXt'', text_payload keyword txt,
      be32 (crc32 (encodeText ''tEXt'' @ text_payload keyword txt)))"



text \<open>A string of ASCII characters, and the byte order mark U+FEFF.\<close>

definition ascii :: "string \<Rightarrow> bool" where
  "ascii s = list_all (\<lambda>c. (of_char c :: nat) < 128) s"

definition BOM :: string where
  "BOM = [CHR 0xEF, CHR 0xBB, CHR 0xBF]"

text \<open>Example cards: a version-2 envelope, a bare card with a lorebook, a card with an empty name.\<close>

definition kael_card :: json where
  "kael_card =
     JObj [(''spec'', JStr ''chara_card_v2''),
           (''data'', JObj [(''name'', JStr ''Kael''), (''tags'', JStr ''brave, noble''),
                            (''alternate_greetings'', JArr [JStr ''Hi'', JStr ''Yo''])])]"

definition lore_card :: json where
  "lore_card =
     JObj [(''name'', JStr ''Mira''),
           (''character_book'',
              JObj [(''entries'',
                 JArr [JObj [(''keys'', JArr [JStr ''moon'', JStr ''tide'']),
                             (''content'', JStr ''lore'')]])])]"

definition nameless_card :: json where
  "nameless_card = JObj [(''name'', JStr []), (''data'', JObj [(''name'', JStr ''Kael'')])]"

text \<open>A character with one quick-reply action and a retained quick-reply file object.\<close>

definition qr_character :: "json \<Rightarrow> Character" where
  "qr_character extra =
     blank_character\<lparr>name := JStr ''Aria'',
                     qrList := JArr [JObj [(''label'', JStr ''New'')]],
                     extra_qr_data := extra\<rparr>"

text \<open>
  A character imported from a card that stored its greeting under the legacy key
  \<^verbatim>\<open>greeting\<close> and carried a field the application does not model, after the editor
  renamed it and cleared its first message.
\<close>

definition edited_character :: Character where
  "edited_character =
     blank_character\<lparr>name := JStr ''Aria'',
                     rawData := JObj [(''name'', JStr ''Old''), (''greeting'', JStr ''hi''),
                                      (''custom_field'', JNum 42)]\<rparr>"

section \<open>CRC32: the table-driven code computes the CRC of the PNG specification\<close>

lemma and1_xor: "((a XOR b) AND 1 \<noteq> 0) = ((a AND 1 \<noteq> 0) \<noteq> (b AND 1 \<noteq> (0::u32)))"
  by (auto simp add: and_one_eq mod_2_eq_odd even_xor_iff)

lemma crc_bit_step_xor: "crc_bit_step (a XOR b) = crc_bit_step a XOR crc_bit_step b"
  unfolding crc_bit_step_def and1_xor
  by (auto simp: drop_bit_xor xor.assoc xor.left_commute)

lemma crc_bit_steps_xor:
  "(crc_bit_step ^^ k) (a XOR b) = (crc_bit_step ^^ k) a XOR (crc_bit_step ^^ k) b"
  by (induction k) (simp_all add: crc_bit_step_xor)

lemma crc_bit_step_even: "take_bit (Suc k) c = 0 \<Longrightarrow> crc_bit_step c = drop_bit 1 c \<and> take_bit k (drop_bit 1 c) = 0"
proof -
  assume a: "take_bit (Suc k) c = 0"
  have "even c" using a by (metis even_take_bit_eq even_zero nat.simps(3))
  hence "c AND 1 = 0" by (simp add: and_one_eq mod_2_eq_odd)
  moreover have "take_bit k (drop_bit 1 c) = 0"
    using a by (metis take_bit_drop_bit drop_bit_of_0 plus_1_eq_Suc add.commute)
  ultimately show ?thesis by (simp add: crc_bit_step_def)
qed

lemma crc_bit_steps_high:
  "take_bit k c = 0 \<Longrightarrow> (crc_bit_step ^^ k) c = drop_bit k c"
proof (induction k arbitrary: c)
  case 0
  then show ?case by simp
next
  case (Suc k)
  from crc_bit_step_even[OF Suc.prems]
  have s: "crc_bit_step c = drop_bit 1 c" and t: "take_bit k (drop_bit 1 c) = 0" by simp_all
  have "(crc_bit_step ^^ Suc k) c = (crc_bit_step ^^ k) (crc_bit_step c)"
    by (simp add: funpow_swap1)
  also have "\<dots> = drop_bit k (drop_bit 1 c)" using Suc.IH[OF t] s by simp
  finally show ?case by (simp add: drop_bit_drop_bit)
qed

lemma and_ff: "(x::u32) AND 0xff = take_bit 8 x"
proof -
  have "(0xff::u32) = mask 8" by (simp add: mask_eq_exp_minus_1)
  thus ?thesis by (simp add: take_bit_eq_mask)
qed

lemma split_low_high: "(x::u32) = (x AND 0xff) XOR (push_bit 8 (drop_bit 8 x))"
  unfolding and_ff by (rule bit_eqI) (auto simp: bit_simps)

lemma crcTable_nth: "crcTable ! unat ((x::u32) AND 0xff) = (crc_bit_step ^^ 8) (x AND 0xff)"
proof -
  have lt: "unat (x AND 0xff) < 256"
  proof -
    have "unat (take_bit 8 x) = take_bit 8 (unat x)" by (rule unsigned_take_bit_eq)
    also have "\<dots> < 2 ^ 8" by (rule take_bit_nat_less_exp)
    finally show ?thesis by (simp add: and_ff)
  qed
  have "word_of_nat (unat (x AND 0xff)) = x AND 0xff" by simp
  with lt show ?thesis unfolding crcTable_def by (simp only: nth_map_upt minus_nat.diff_0 add_0)
qed

lemma xor_cancel_right: "(s::u32) XOR x = t XOR x \<Longrightarrow> s = t"
proof -
  assume "s XOR x = t XOR x"
  hence "(s XOR x) XOR x = (t XOR x) XOR x" by simp
  thus ?thesis by (simp add: xor.assoc)
qed

lemma xor_cancel_left: "(x::u32) XOR s = x XOR t \<Longrightarrow> s = t"
  using xor_cancel_right[of s x t] by (simp add: xor.commute)

lemma drop_bit_8_ucast_byte: "drop_bit 8 (ucast (b::byte) :: u32) = 0"
  by (rule bit_eqI) (auto simp: bit_simps dest: bit_imp_le_length)

lemma crc_update_bitwise: "crc_update crc b = (crc_bit_step ^^ 8) (crc XOR ucast b)"
proof -
  let ?x = "crc XOR ucast b"
  have hi: "drop_bit 8 ?x = drop_bit 8 crc"
    by (simp add: drop_bit_xor drop_bit_8_ucast_byte)
  have "(crc_bit_step ^^ 8) ?x = (crc_bit_step ^^ 8) ((?x AND 0xff) XOR push_bit 8 (drop_bit 8 ?x))"
    using split_low_high[of ?x] by simp
  also have "\<dots> = (crc_bit_step ^^ 8) (?x AND 0xff) XOR (crc_bit_step ^^ 8) (push_bit 8 (drop_bit 8 ?x))"
    by (rule crc_bit_steps_xor)
  also have "(crc_bit_step ^^ 8) (push_bit 8 (drop_bit 8 ?x)) = drop_bit 8 (push_bit 8 (drop_bit 8 ?x))"
    by (rule crc_bit_steps_high) (simp add: take_bit_push_bit)
  also have "drop_bit 8 (push_bit 8 (drop_bit 8 ?x)) = drop_bit 8 crc"
    unfolding hi
  proof (rule bit_eqI)
    fix n
    show "bit (drop_bit 8 (push_bit 8 (drop_bit 8 crc))) n = bit (drop_bit 8 crc) n"
      using bit_imp_le_length[of crc "8 + n"] by (auto simp: bit_simps)
  qed
  finally show ?thesis by (simp add: crc_update_def crcTable_nth)
qed

lemma crc_bit_step_top: "bit (crc_bit_step c) 31 = (c AND 1 \<noteq> 0)"
  by (auto simp: crc_bit_step_def bit_simps dest: bit_imp_le_length)

lemma crc_bit_step_inj: "crc_bit_step a = crc_bit_step b \<Longrightarrow> a = b"
proof -
  assume e: "crc_bit_step a = crc_bit_step b"
  have b0: "(a AND 1 \<noteq> 0) = (b AND 1 \<noteq> 0)"
    using crc_bit_step_top[of a] crc_bit_step_top[of b] e by simp
  hence d: "drop_bit 1 a = drop_bit 1 b" using e by (auto simp: crc_bit_step_def split: if_splits dest: xor_cancel_left)
  have od: "odd a = odd b" using b0 by (simp add: and_one_eq mod_2_eq_odd)
  show "a = b"
  proof (rule bit_eqI)
    fix n
    show "bit a n = bit b n"
    proof (cases n)
      case 0
      thus ?thesis using od by (simp add: bit_0)
    next
      case (Suc m)
      have "bit a (Suc m) = bit (drop_bit 1 a) m" by (simp add: bit_drop_bit_eq)
      also have "\<dots> = bit (drop_bit 1 b) m" by (simp only: d)
      also have "\<dots> = bit b (Suc m)" by (simp add: bit_drop_bit_eq)
      finally show ?thesis using Suc by simp
    qed
  qed
qed

lemma crc_bit_steps_inj: "(crc_bit_step ^^ k) a = (crc_bit_step ^^ k) b \<Longrightarrow> a = b"
proof (induction k)
  case 0
  thus ?case by simp
next
  case (Suc k)
  hence "crc_bit_step ((crc_bit_step ^^ k) a) = crc_bit_step ((crc_bit_step ^^ k) b)" by simp
  hence "(crc_bit_step ^^ k) a = (crc_bit_step ^^ k) b" by (rule crc_bit_step_inj)
  thus ?case by (rule Suc.IH)
qed

lemma crc_update_inj_state: "crc_update s b = crc_update t b \<Longrightarrow> s = t"
  unfolding crc_update_bitwise by (drule crc_bit_steps_inj) (rule xor_cancel_right)

lemma ucast_byte_inj: "(ucast (b::byte) :: u32) = ucast c \<Longrightarrow> b = c"
proof -
  assume "(ucast b :: u32) = ucast c"
  hence "(ucast (ucast b :: u32) :: byte) = ucast (ucast c :: u32)" by simp
  thus ?thesis by (simp add: ucast_up_ucast_id is_up)
qed

lemma crc_update_inj_byte: "crc_update s b = crc_update s c \<Longrightarrow> b = c"
  unfolding crc_update_bitwise
  by (drule crc_bit_steps_inj) (drule xor_cancel_left, rule ucast_byte_inj)

lemma foldl_crc_update_inj: "foldl crc_update s bs = foldl crc_update t bs \<Longrightarrow> s = t"
proof (induction bs arbitrary: s t)
  case Nil
  thus ?case by simp
next
  case (Cons x xs)
  hence "crc_update s x = crc_update t x" by simp
  thus ?case by (rule crc_update_inj_state)
qed

lemma png_polynomial_value: "png_polynomial = 0xEDB88320"
  by (simp add: png_polynomial_def set_bit_eq_or)

declare png_polynomial_value [code]

lemma and1_bit0: "((c::u32) AND 1 \<noteq> 0) = bit c 0"
  by (simp add: and_one_eq mod_2_eq_odd bit_0)

lemma crc_bit_step_shift: "crc_bit_step (r XOR y) = crc_shift r (bit y 0) XOR drop_bit 1 y"
  unfolding crc_bit_step_def crc_shift_def png_polynomial_value and1_bit0
  by (auto simp: bit_xor_iff drop_bit_xor xor.assoc xor.left_commute xor.commute)

lemma crc_bit_steps_shift:
  "(crc_bit_step ^^ n) (r XOR y) = foldl crc_shift r (map (bit y) [0..<n]) XOR drop_bit n y"
proof (induction n arbitrary: r y)
  case 0
  show ?case by simp
next
  case (Suc n)
  have "(crc_bit_step ^^ Suc n) (r XOR y) = (crc_bit_step ^^ n) (crc_bit_step (r XOR y))"
    by (simp add: funpow_swap1)
  also have "\<dots> = (crc_bit_step ^^ n) (crc_shift r (bit y 0) XOR drop_bit 1 y)"
    by (simp only: crc_bit_step_shift)
  also have "\<dots> = foldl crc_shift (crc_shift r (bit y 0)) (map (bit (drop_bit 1 y)) [0..<n])
                    XOR drop_bit n (drop_bit 1 y)"
    by (rule Suc.IH)
  also have "map (bit (drop_bit 1 y)) [0..<n] = map (bit y) (map Suc [0..<n])"
    by (simp add: bit_drop_bit_eq)
  also have "drop_bit n (drop_bit 1 y) = drop_bit (Suc n) y"
    by (simp add: drop_bit_drop_bit)
  finally show ?case
    by (simp add: upt_conv_Cons map_Suc_upt del: upt_Suc)
qed

lemma crc_update_shift: "crc_update r b = foldl crc_shift r (byte_bits b)"
proof -
  have m: "map (bit (ucast b :: u32)) [0..<8] = map (bit b) [0..<8]"
    by (rule map_cong) (simp_all add: bit_simps)
  show ?thesis
    unfolding crc_update_bitwise crc_bit_steps_shift byte_bits_def m
    by (simp only: drop_bit_8_ucast_byte xor.comm_neutral)
qed

lemma foldl_crc_update_shift:
  "foldl crc_update r buf = foldl crc_shift r (concat (map byte_bits buf))"
  by (induction buf arbitrary: r) (simp_all add: crc_update_shift)

lemma crc32_png_crc: "crc32 buf = png_crc buf"
  by (simp add: crc32_def png_crc_def foldl_crc_update_shift)

lemma png_crc_IEND: "png_crc [0x49, 0x45, 0x4E, 0x44] = 0xAE426082"
  by code_simp

lemma png_crc_check: "png_crc (encodeText ''123456789'') = 0xCBF43926"
  by code_simp

lemma crc32_detects_byte_change:
  assumes "i < length buf" "b \<noteq> buf ! i"
  shows "crc32 (buf[i := b]) \<noteq> crc32 buf"
proof
  assume e: "crc32 (buf[i := b]) = crc32 buf"
  let ?p = "take i buf" and ?s = "drop (Suc i) buf"
  have 1: "buf = ?p @ buf ! i # ?s" using assms(1) by (rule id_take_nth_drop)
  have 2: "buf[i := b] = ?p @ b # ?s" using assms(1) by (rule upd_conv_take_nth_drop)
  let ?st = "foldl crc_update 0xffffffff ?p"
  have "foldl crc_update 0xffffffff (buf[i := b]) = foldl crc_update 0xffffffff buf"
    using e unfolding crc32_def by (rule xor_cancel_right)
  hence "foldl crc_update 0xffffffff (?p @ b # ?s) = foldl crc_update 0xffffffff (?p @ buf ! i # ?s)"
    using 1 2 by simp
  hence "foldl crc_update (crc_update ?st b) ?s = foldl crc_update (crc_update ?st (buf ! i)) ?s"
    by simp
  hence "crc_update ?st b = crc_update ?st (buf ! i)" by (rule foldl_crc_update_inj)
  hence "b = buf ! i" by (rule crc_update_inj_byte)
  with assms(2) show False by simp
qed

lemma length_be32: "length (be32 w) = 4"
  by (simp add: be32_def)

lemma framed_parts:
  assumes "length h = 4" "length body = m"
  shows "slice (h @ body @ z) 4 (4 + m) = body" and "take (4 + m) (h @ body @ z) = h @ body"
  using assms by (simp_all add: slice_def)

lemma chunkBuffer_layout:
  "chunkBuffer textBytes =
     be32 (word_of_nat (length (keywordBytes @ [0] @ textBytes)))
     @ [116, 69, 88, 116] @ (keywordBytes @ [0] @ textBytes)
     @ be32 (crc32 ([116, 69, 88, 116] @ keywordBytes @ [0] @ textBytes))"
proof -
  define n where "n = length keywordBytes + 1 + length textBytes"
  define body where "body = [116, 69, 88, 116] @ keywordBytes @ [0] @ textBytes"
  define h where "h = be32 (word_of_nat n)"
  have lh: "length h = 4" by (simp add: h_def length_be32)
  have lb: "length body = 4 + n" by (simp add: body_def n_def)
  have f: "h @ [116, 69, 88, 116] @ keywordBytes @ [0] @ textBytes @ [0, 0, 0, 0]
           = h @ body @ [0, 0, 0, 0]" by (simp add: body_def)
  have "chunkBuffer textBytes
        = take (4 + (4 + n)) (h @ body @ [0, 0, 0, 0])
          @ be32 (crc32 (slice (h @ body @ [0, 0, 0, 0]) 4 (4 + (4 + n))))"
    unfolding chunkBuffer_def Let_def n_def[symmetric] h_def[symmetric] f
    by (simp only: add.assoc)
  also have "\<dots> = (h @ body) @ be32 (crc32 body)"
    by (simp only: framed_parts[OF lh lb])
  finally show ?thesis by (simp add: h_def body_def n_def)
qed

text \<open>
  C4. \<^verbatim>\<open>crc32\<close>, computed from the table, is the CRC of the PNG specification: the
  bit-serial CRC with the generator polynomial of the specification, which in the reflected
  register is the word 0xEDB88320, initial value and final XOR 0xFFFFFFFF, as a 32-bit
  unsigned value. It gives the CRC that closes every PNG file, AE 42 60 82 for the type
  \<^verbatim>\<open>IEND\<close> without data, and the check value 0xCBF43926 of this CRC for the text
  \<^verbatim>\<open>123456789\<close>. The chunk built for a card is its length, the type \<^verbatim>\<open>tEXt\<close>, the
  payload, and as trailer the \<^verbatim>\<open>crc32\<close> of type and payload. Replacing any single byte of a
  buffer by a different byte changes its \<^verbatim>\<open>crc32\<close>.
\<close>

theorem crc32_correct:
  "crc32 buf = png_crc buf
   \<and> png_polynomial = 0xEDB88320
   \<and> crc32 [0x49, 0x45, 0x4E, 0x44] = 0xAE426082
   \<and> crc32 (encodeText ''123456789'') = 0xCBF43926
   \<and> chunkBuffer textBytes =
       be32 (word_of_nat (length (keywordBytes @ [0] @ textBytes)))
       @ [116, 69, 88, 116] @ (keywordBytes @ [0] @ textBytes)
       @ be32 (crc32 ([116, 69, 88, 116] @ keywordBytes @ [0] @ textBytes))
   \<and> (\<forall>i b. i < length buf \<and> b \<noteq> buf ! i \<longrightarrow> crc32 (buf[i := b]) \<noteq> crc32 buf)"
proof -
  have c1: "crc32 buf = png_crc buf" by (rule crc32_png_crc)
  have c2: "png_polynomial = 0xEDB88320" by (rule png_polynomial_value)
  have c3: "crc32 [0x49, 0x45, 0x4E, 0x44] = 0xAE426082"
    unfolding crc32_png_crc by (rule png_crc_IEND)
  have c4: "crc32 (encodeText ''123456789'') = 0xCBF43926"
    unfolding crc32_png_crc by (rule png_crc_check)
  have c5: "chunkBuffer textBytes =
       be32 (word_of_nat (length (keywordBytes @ [0] @ textBytes)))
       @ [116, 69, 88, 116] @ (keywordBytes @ [0] @ textBytes)
       @ be32 (crc32 ([116, 69, 88, 116] @ keywordBytes @ [0] @ textBytes))"
    by (rule chunkBuffer_layout)
  have c6: "\<forall>i b. i < length buf \<and> b \<noteq> buf ! i \<longrightarrow> crc32 (buf[i := b]) \<noteq> crc32 buf"
    using crc32_detects_byte_change by blast
  show ?thesis by (intro conjI) (rule c1, rule c2, rule c3, rule c4, rule c5, rule c6)
qed

theorem crc32_correct_witness:
  "(1::nat) < length [0x49, 0x45, 0x4e, 0x44 :: byte]
   \<and> (0x46 :: byte) \<noteq> [0x49, 0x45, 0x4e, 0x44] ! 1
   \<and> crc32 ([0x49, 0x45, 0x4e, 0x44][1 := 0x46]) \<noteq> crc32 [0x49, 0x45, 0x4e, 0x44]"
proof -
  have h: "(1::nat) < length [0x49, 0x45, 0x4e, 0x44 :: byte]
           \<and> (0x46 :: byte) \<noteq> [0x49, 0x45, 0x4e, 0x44] ! 1" by simp
  note c = crc32_correct[of "[0x49, 0x45, 0x4e, 0x44]" "[]"]
  note d = c[THEN conjunct2, THEN conjunct2, THEN conjunct2, THEN conjunct2, THEN conjunct2]
  from d[rule_format, of 1 "0x46", OF h] h show ?thesis by simp
qed
section \<open>Encoding: where the chunk is spliced\<close>













section \<open>Objects as property lists\<close>

lemma map_of_obj_set: "map_of (obj_set k v kvs) k' = (if k' = k then Some v else map_of kvs k')"
proof (cases "k \<in> fst ` set kvs")
  case True
  have "map_of (map (\<lambda>(a, b). if a = k then (a, v) else (a, b)) kvs) k'
        = (if k' = k then (if k \<in> fst ` set kvs then Some v else None) else map_of kvs k')"
    by (induction kvs) (auto split: if_splits)
  with True show ?thesis by (simp add: obj_set_def)
next
  case False
  hence "map_of kvs k = None" by (simp add: map_of_eq_None_iff)
  with False show ?thesis by (auto simp: obj_set_def map_add_def split: option.splits)
qed

lemma obj_get_obj_set: "obj_get (obj_set k v kvs) k' = (if k' = k then v else obj_get kvs k')"
  by (simp add: obj_get_def map_of_obj_set)

lemma keys_obj_set: "fst ` set (obj_set k v kvs) = insert k (fst ` set kvs)"
  by (force simp: obj_set_def image_iff split: if_splits)

lemma map_of_overlay:
  "map_of (overlay base fs) k = (case map_of (rev fs) k of Some v \<Rightarrow> Some v | None \<Rightarrow> map_of base k)"
proof (induction fs arbitrary: base)
  case Nil
  show ?case by (simp add: overlay_def)
next
  case (Cons f fs)
  obtain a b where f: "f = (a, b)" by (cases f)
  have "overlay base (f # fs) = overlay (obj_set a b base) fs" by (simp add: overlay_def f)
  thus ?case using Cons.IH[of "obj_set a b base"]
    by (auto simp: f map_of_obj_set map_add_def split: option.splits)
qed

lemma map_of_rev_distinct: "distinct (map fst xs) \<Longrightarrow> map_of (rev xs) = map_of xs"
  by (rule map_of_inject_set[THEN iffD2]) (simp_all add: distinct_rev rev_map[symmetric])

lemma obj_get_overlay:
  "distinct (map fst fs) \<Longrightarrow>
   obj_get (overlay base fs) k = (case map_of fs k of Some v \<Rightarrow> v | None \<Rightarrow> obj_get base k)"
  by (simp add: obj_get_def map_of_overlay map_of_rev_distinct split: option.splits)

lemma get_JObj: "get (JObj kvs) k = obj_get kvs k"
  by (simp add: obj_get_def)

section \<open>Import: the envelope rule and the raw snapshot\<close>

lemma map_err_Inr:
  "map_err f xs = Inr ys \<Longrightarrow> length ys = length xs \<and> (\<forall>n<length xs. f (xs ! n) = Inr (ys ! n))"
proof (induction xs arbitrary: ys)
  case Nil
  thus ?case by simp
next
  case (Cons x xs)
  then obtain y ys' where y: "f x = Inr y" and r: "map_err f xs = Inr ys'" and e: "ys = y # ys'"
    by (auto split: sum.splits)
  from Cons.IH[OF r] y e show ?case by (auto simp: nth_Cons split: nat.splits)
qed

lemma add_keysInput_shape:
  "add_keysInput e = Inr e' \<Longrightarrow> \<exists>s. e' = JObj (obj_set ''keysInput'' (JStr s) (spread e))"
  by (auto simp: add_keysInput_def split: if_splits json.splits sum.splits)

lemma buildCharacter_rawData:
  "buildCharacter root f a i fmt now = Inr c \<Longrightarrow> unwrap root = Inr (rawData c)"
  by (auto simp: buildCharacter_def split: sum.splits)

lemma buildCharacter_book:
  "buildCharacter root f a i fmt now = Inr c \<Longrightarrow>
     import_book (get (rawData c) ''character_book'') = Inr (character_book c)"
  by (auto simp: buildCharacter_def split: sum.splits)

text \<open>
  C5, as the code has it. The body that becomes \<^verbatim>\<open>rawData\<close> is \<^verbatim>\<open>root.data\<close> when
  \<^verbatim>\<open>root.spec\<close> is the string \<^verbatim>\<open>chara_card_v2\<close> and \<^verbatim>\<open>root.data\<close> is truthy; otherwise
  \<^verbatim>\<open>root.data\<close> when \<^verbatim>\<open>root.name\<close> is falsy (absent, empty, \<^verbatim>\<open>null\<close>, 0 or false) and
  \<^verbatim>\<open>root.data.name\<close> is truthy; otherwise the root itself.
\<close>

theorem unwrap_rule:
  assumes "buildCharacter root f a i fmt now = Inr c"
  shows "rawData c =
     (if get root ''spec'' = JStr ''chara_card_v2'' \<and> truthy (get root ''data'')
        then get root ''data''
      else if \<not> truthy (get root ''name'') \<and> truthy (optget (get root ''data'') ''name'')
        then get root ''data''
      else root)"
  using buildCharacter_rawData[OF assms] by (auto simp: unwrap_def split: if_splits)

text \<open>
  C10. After an import the retained \<^verbatim>\<open>rawData\<close> is the unwrapped source object itself, so
  its \<^verbatim>\<open>character_book\<close> is the source's. The \<^verbatim>\<open>keysInput\<close> helper appears only in the
  typed \<^verbatim>\<open>character_book\<close>, whose entries are copies of the source entries with the helper
  set; without entries the typed field is the source's \<^verbatim>\<open>character_book\<close> unchanged.
\<close>

theorem rawData_snapshot:
  assumes "buildCharacter root f a i fmt now = Inr c"
  shows "unwrap root = Inr (rawData c)
     \<and> (truthy (optget (get (rawData c) ''character_book'') ''entries'') \<longrightarrow>
          (\<exists>es es'. get (get (rawData c) ''character_book'') ''entries'' = JArr es
             \<and> character_book c =
                 JObj (obj_set ''entries'' (JArr es') (spread (get (rawData c) ''character_book'')))
             \<and> length es' = length es
             \<and> (\<forall>n<length es. \<exists>s. es' ! n = JObj (obj_set ''keysInput'' (JStr s) (spread (es ! n))))))
     \<and> (\<not> truthy (optget (get (rawData c) ''character_book'') ''entries'') \<longrightarrow>
          character_book c = get (rawData c) ''character_book'')"
proof (intro conjI impI)
  show "unwrap root = Inr (rawData c)" by (rule buildCharacter_rawData[OF assms])
next
  let ?cb = "get (rawData c) ''character_book''"
  assume t: "truthy (optget ?cb ''entries'')"
  from buildCharacter_book[OF assms] t
  obtain es es' where 1: "get ?cb ''entries'' = JArr es" and 2: "map_err add_keysInput es = Inr es'"
    and 3: "character_book c = JObj (obj_set ''entries'' (JArr es') (spread ?cb))"
    by (auto simp: import_book_def js_map_def split: sum.splits json.splits)
  from map_err_Inr[OF 2] have l: "length es' = length es"
    and n: "\<forall>n<length es. add_keysInput (es ! n) = Inr (es' ! n)" by simp_all
  have "\<forall>n<length es. \<exists>s. es' ! n = JObj (obj_set ''keysInput'' (JStr s) (spread (es ! n)))"
    using n add_keysInput_shape by blast
  with 1 3 l show "\<exists>es es'. get ?cb ''entries'' = JArr es
             \<and> character_book c = JObj (obj_set ''entries'' (JArr es') (spread ?cb))
             \<and> length es' = length es
             \<and> (\<forall>n<length es. \<exists>s. es' ! n = JObj (obj_set ''keysInput'' (JStr s) (spread (es ! n))))"
    by blast
next
  assume "\<not> truthy (optget (get (rawData c) ''character_book'') ''entries'')"
  with buildCharacter_book[OF assms]
  show "character_book c = get (rawData c) ''character_book''"
    by (simp add: import_book_def)
qed

lemma kael_imports: "\<not> isl (buildCharacter kael_card ''kael.json'' [] [] Json 0)"
  by code_simp

lemma lore_imports: "\<not> isl (buildCharacter lore_card ''mira.json'' [] [] Json 0)"
  by code_simp

theorem unwrap_rule_witness:
  "\<exists>c. buildCharacter kael_card ''kael.json'' [] [] Json 0 = Inr c
       \<and> rawData c = JObj [(''name'', JStr ''Kael''), (''tags'', JStr ''brave, noble''),
                           (''alternate_greetings'', JArr [JStr ''Hi'', JStr ''Yo''])]"
proof -
  obtain c where c: "buildCharacter kael_card ''kael.json'' [] [] Json 0 = Inr c"
    using kael_imports by (cases "buildCharacter kael_card ''kael.json'' [] [] Json 0") auto
  from unwrap_rule[OF c] have "rawData c = get kael_card ''data''"
    by (simp add: kael_card_def)
  with c show ?thesis by (simp add: kael_card_def)
qed

text \<open>
  With "has no name field" read as written the rule fails: a root with an empty \<^verbatim>\<open>name\<close>
  has the field, and is unwrapped all the same.
\<close>

theorem unwrap_rule_counterexample:
  "map_of [(''name'', JStr []), (''data'', JObj [(''name'', JStr ''Kael'')])] ''name'' = Some (JStr [])
   \<and> get nameless_card ''spec'' \<noteq> JStr ''chara_card_v2''
   \<and> \<not> isl (buildCharacter nameless_card [] [] [] Json 0)
   \<and> rawData (projr (buildCharacter nameless_card [] [] [] Json 0)) = JObj [(''name'', JStr ''Kael'')]
   \<and> rawData (projr (buildCharacter nameless_card [] [] [] Json 0)) \<noteq> nameless_card"
  by code_simp

theorem rawData_snapshot_witness:
  "\<exists>c. buildCharacter lore_card ''mira.json'' [] [] Json 0 = Inr c
       \<and> rawData c = lore_card
       \<and> truthy (optget (get (rawData c) ''character_book'') ''entries'')
       \<and> get (rawData c) ''character_book'' = get lore_card ''character_book''"
proof -
  obtain c where c: "buildCharacter lore_card ''mira.json'' [] [] Json 0 = Inr c"
    using lore_imports by (cases "buildCharacter lore_card ''mira.json'' [] [] Json 0") auto
  from rawData_snapshot[OF c] have "unwrap lore_card = Inr (rawData c)" by blast
  moreover have "unwrap lore_card = Inr lore_card" by code_simp
  ultimately have r: "rawData c = lore_card" by simp
  have "truthy (optget (get lore_card ''character_book'') ''entries'')" by code_simp
  with c r show ?thesis by simp
qed

section \<open>Quick-reply export\<close>

lemma map_of_rev_None: "map_of (rev fs) k = None \<longleftrightarrow> map_of fs k = None"
  by (simp add: map_of_eq_None_iff)

lemma obj_get_snoc_other: "k \<noteq> q \<Longrightarrow> obj_get (xs @ [(q, z)]) k = obj_get xs k"
  by (simp add: obj_get_def map_add_def split: option.splits)

lemma obj_get_snoc_same: "map_of xs q = None \<Longrightarrow> obj_get (xs @ [(q, z)]) q = z"
  by (simp add: obj_get_def map_add_def)

text \<open>
  C9, as the code has it. The object \<^verbatim>\<open>exportQrData\<close> writes is the fixed scaffold overlaid
  with the retained raw object, and its \<^verbatim>\<open>qrList\<close> is the current action list. The
  quick-reply file of a ZIP is the smaller scaffold \<^verbatim>\<open>version\<close>, \<^verbatim>\<open>name\<close> (the character's
  name followed by \<^verbatim>\<open>QR\<close>) overlaid with the retained raw object; its \<^verbatim>\<open>qrList\<close> is the
  current action list when the raw object has no \<^verbatim>\<open>qrList\<close> of its own.
\<close>

theorem qr_export_shape:
  "obj_get (exportQrData qrs extraData) ''qrList'' = qrs
   \<and> (k \<noteq> ''qrList'' \<and> distinct (map fst (spread (if extraData = JUndefined then JObj [] else extraData))) \<longrightarrow>
        obj_get (exportQrData qrs extraData) k =
          (case map_of (spread (if extraData = JUndefined then JObj [] else extraData)) k of
             Some v \<Rightarrow> v | None \<Rightarrow> obj_get qr_scaffold k))
   \<and> (zip_qrData c = Inr obj \<and> distinct (map fst (spread (jor (extra_qr_data c) (JObj [])))) \<longrightarrow>
        (\<exists>n. js_String (name c) = Inr n
           \<and> (k \<noteq> ''qrList'' \<longrightarrow>
                obj_get obj k =
                  (case map_of (spread (jor (extra_qr_data c) (JObj []))) k of
                     Some v \<Rightarrow> v
                   | None \<Rightarrow> obj_get [(''version'', JNum 2), (''name'', JStr (n @ '' QR''))] k))
           \<and> (map_of (spread (jor (extra_qr_data c) (JObj []))) ''qrList'' = None \<longrightarrow>
                obj_get obj ''qrList'' = qrList c)))"
proof (intro conjI impI)
  show "obj_get (exportQrData qrs extraData) ''qrList'' = qrs"
    by (simp add: exportQrData_def Let_def obj_get_obj_set)
next
  assume a: "k \<noteq> ''qrList'' \<and> distinct (map fst (spread (if extraData = JUndefined then JObj [] else extraData)))"
  thus "obj_get (exportQrData qrs extraData) k =
          (case map_of (spread (if extraData = JUndefined then JObj [] else extraData)) k of
             Some v \<Rightarrow> v | None \<Rightarrow> obj_get qr_scaffold k)"
    unfolding exportQrData_def Let_def
    by (simp only: obj_get_obj_set obj_get_overlay if_False)
next
  let ?ex = "spread (jor (extra_qr_data c) (JObj []))"
  assume a: "zip_qrData c = Inr obj \<and> distinct (map fst ?ex)"
  then obtain n where n: "js_String (name c) = Inr n"
    and o: "obj = overlay [(''version'', JNum 2), (''name'', JStr (n @ '' QR'')), (''qrList'', qrList c)] ?ex"
    by (auto simp: zip_qrData_def split: sum.splits)
  have g: "\<And>k. obj_get obj k = (case map_of ?ex k of Some v \<Rightarrow> v
              | None \<Rightarrow> obj_get [(''version'', JNum 2), (''name'', JStr (n @ '' QR'')), (''qrList'', qrList c)] k)"
    unfolding o using a by (simp only: obj_get_overlay)
  let ?head = "[(''version'', JNum 2), (''name'', JStr (n @ '' QR''))]"
  have sp: "[(''version'', JNum 2), (''name'', JStr (n @ '' QR'')), (''qrList'', qrList c)]
            = ?head @ [(''qrList'', qrList c)]" by simp
  have 1: "k \<noteq> ''qrList'' \<longrightarrow> obj_get obj k =
                  (case map_of ?ex k of Some v \<Rightarrow> v | None \<Rightarrow> obj_get ?head k)"
  proof
    assume ne: "k \<noteq> ''qrList''"
    show "obj_get obj k = (case map_of ?ex k of Some v \<Rightarrow> v | None \<Rightarrow> obj_get ?head k)"
      unfolding g sp obj_get_snoc_other[OF ne] ..
  qed
  have 2: "map_of ?ex ''qrList'' = None \<longrightarrow> obj_get obj ''qrList'' = qrList c"
  proof
    assume no: "map_of ?ex ''qrList'' = None"
    have "map_of ?head ''qrList'' = None" by simp
    hence "obj_get (?head @ [(''qrList'', qrList c)]) ''qrList'' = qrList c"
      by (rule obj_get_snoc_same)
    thus "obj_get obj ''qrList'' = qrList c" unfolding g sp no by simp
  qed
  show "\<exists>n. js_String (name c) = Inr n
           \<and> (k \<noteq> ''qrList'' \<longrightarrow>
                obj_get obj k =
                  (case map_of ?ex k of
                     Some v \<Rightarrow> v
                   | None \<Rightarrow> obj_get [(''version'', JNum 2), (''name'', JStr (n @ '' QR''))] k))
           \<and> (map_of ?ex ''qrList'' = None \<longrightarrow> obj_get obj ''qrList'' = qrList c)"
    by (rule exI[of _ n]) (intro conjI n 1 2)
qed


text \<open>
  In a ZIP the raw object is spread after \<^verbatim>\<open>qrList\<close>: a raw object that has a \<^verbatim>\<open>qrList\<close>
  replaces the current action list.
\<close>

theorem qr_export_shape_counterexample:
  "zip_qrData (qr_character (JObj [(''qrList'', JArr [JObj [(''label'', JStr ''Old'')]])]))
   = Inr [(''version'', JNum 2), (''name'', JStr ''Aria QR''),
          (''qrList'', JArr [JObj [(''label'', JStr ''Old'')]])]
   \<and> qrList (qr_character (JObj [(''qrList'', JArr [JObj [(''label'', JStr ''Old'')]])]))
       = JArr [JObj [(''label'', JStr ''New'')]]"
  by code_simp

theorem qr_export_shape_witness:
  "''color'' \<noteq> ''qrList''
   \<and> distinct (map fst (spread (JObj [(''color'', JStr ''red''), (''qrList'', JArr [])])))
   \<and> obj_get (exportQrData (JArr [JObj [(''label'', JStr ''Greet'')]])
                (JObj [(''color'', JStr ''red''), (''qrList'', JArr [])])) ''color'' = JStr ''red''
   \<and> obj_get (exportQrData (JArr [JObj [(''label'', JStr ''Greet'')]])
                (JObj [(''color'', JStr ''red''), (''qrList'', JArr [])])) ''qrList''
       = JArr [JObj [(''label'', JStr ''Greet'')]]
   \<and> (\<exists>obj. zip_qrData (qr_character (JObj [(''color'', JStr ''red'')])) = Inr obj
          \<and> obj_get obj ''color'' = JStr ''red''
          \<and> obj_get obj ''qrList'' = JArr [JObj [(''label'', JStr ''New'')]])"
proof -
  let ?qrs = "JArr [JObj [(''label'', JStr ''Greet'')]]"
  let ?extra = "JObj [(''color'', JStr ''red''), (''qrList'', JArr [])]"
  let ?c = "qr_character (JObj [(''color'', JStr ''red'')])"
  have h1: "''color'' \<noteq> ''qrList''
            \<and> distinct (map fst (spread (if ?extra = JUndefined then JObj [] else ?extra)))" by simp
  have z: "\<not> isl (zip_qrData ?c)" by code_simp
  then obtain obj where obj: "zip_qrData ?c = Inr obj" by (cases "zip_qrData ?c") simp_all
  have e: "spread (jor (extra_qr_data ?c) (JObj [])) = [(''color'', JStr ''red'')]"
    by (simp add: jor_def qr_character_def)
  have q: "qrList ?c = JArr [JObj [(''label'', JStr ''New'')]]" by (simp add: qr_character_def)
  have h2: "zip_qrData ?c = Inr obj \<and> distinct (map fst (spread (jor (extra_qr_data ?c) (JObj []))))"
    using obj by (simp only: e) simp
  note t = qr_export_shape[of ?qrs ?extra "''color''" ?c obj]
  have a: "obj_get (exportQrData ?qrs ?extra) ''color'' = JStr ''red''"
    using mp[OF t[THEN conjunct2, THEN conjunct1] h1] by simp
  have b: "obj_get (exportQrData ?qrs ?extra) ''qrList'' = ?qrs"
    by (rule t[THEN conjunct1])
  from mp[OF t[THEN conjunct2, THEN conjunct2] h2] obtain n where
      c1: "''color'' \<noteq> ''qrList'' \<longrightarrow> obj_get obj ''color'' =
             (case map_of (spread (jor (extra_qr_data ?c) (JObj []))) ''color'' of Some v \<Rightarrow> v
              | None \<Rightarrow> obj_get [(''version'', JNum 2), (''name'', JStr (n @ '' QR''))] ''color'')"
      and c2: "map_of (spread (jor (extra_qr_data ?c) (JObj []))) ''qrList'' = None \<longrightarrow>
             obj_get obj ''qrList'' = qrList ?c"
    by (elim exE conjE)
  from c1 have c: "obj_get obj ''color'' = JStr ''red''" by (simp only: e) simp
  from c2 have d: "obj_get obj ''qrList'' = JArr [JObj [(''label'', JStr ''New'')]]"
    by (simp only: e q) simp
  from a b c d obj h1 show ?thesis by (intro conjI exI[of _ obj]) simp_all
qed

section \<open>The chunk walk on a file of chunks\<close>

lemma byte_char_char_byte: "byte_char (char_byte c) = c"
proof -
  have "(of_char c :: nat) < 256" by simp
  hence "unat (of_nat (of_char c) :: byte) = of_char c"
    by (simp add: unat_of_nat)
  thus ?thesis by (simp add: byte_char_def char_byte_def)
qed

lemma decode_encodeText: "map byte_char (encodeText s) = s"
  by (induction s) (simp_all add: encodeText_def byte_char_char_byte)

lemma length_encodeText: "length (encodeText s) = length s"
  by (simp add: encodeText_def)

lemma utf8_scan_ascii: "\<forall>b\<in>set bs. b \<le> 0x7F \<Longrightarrow> utf8_scan [] 0 0x80 0xBF bs = bs"
  by (induction bs) (simp_all add: utf8_scan.simps)

lemma utf8_decode_ascii:
  assumes "\<forall>b\<in>set bs. b \<le> 0x7F"
  shows "utf8_decode bs = map byte_char bs"
proof -
  have "take 3 bs \<noteq> [0xEF, 0xBB, 0xBF]"
  proof
    assume t: "take 3 bs = [0xEF, 0xBB, 0xBF]"
    have "set (take 3 bs) \<subseteq> set bs" by (rule set_take_subset)
    hence "(0xEF :: byte) \<in> set bs" unfolding t by simp
    with assms have "(0xEF :: byte) \<le> 0x7F" by blast
    thus False by simp
  qed
  thus ?thesis by (simp add: utf8_decode_def utf8_scan_ascii[OF assms])
qed

lemma char_byte_ascii: "(of_char c :: nat) < 128 \<Longrightarrow> char_byte c \<le> 0x7F"
proof -
  assume a: "(of_char c :: nat) < 128"
  hence "unat (of_nat (of_char c) :: byte) = of_char c" by (simp add: unat_of_nat)
  hence "unat (char_byte c) \<le> unat (0x7F :: byte)" using a by (simp add: char_byte_def)
  thus ?thesis by (simp only: word_le_nat_alt)
qed

lemma utf8_decode_encodeText: "ascii s \<Longrightarrow> utf8_decode (encodeText s) = s"
proof -
  assume "ascii s"
  hence "\<forall>b\<in>set (encodeText s). b \<le> 0x7F"
    by (auto simp: ascii_def encodeText_def list_all_iff char_byte_ascii)
  thus ?thesis by (simp add: utf8_decode_ascii decode_encodeText)
qed

lemma be32_roundtrip:
  "push_bit 24 (ucast (ucast (drop_bit 24 w) :: byte)) OR push_bit 16 (ucast (ucast (drop_bit 16 w) :: byte))
   OR push_bit 8 (ucast (ucast (drop_bit 8 w) :: byte)) OR ucast (ucast w :: byte) = (w :: u32)"
  (is "?l = w")
proof (rule bit_eqI)
  fix n :: nat
  consider "n < 8" | "8 \<le> n" "n < 16" | "16 \<le> n" "n < 24" | "24 \<le> n" "n < 32" | "32 \<le> n"
    by linarith
  thus "bit ?l n = bit w n"
  proof cases
    case 1
    thus ?thesis by (simp add: bit_simps)
  next
    case 2
    thus ?thesis by (auto simp: bit_simps)
  next
    case 3
    thus ?thesis by (auto simp: bit_simps)
  next
    case 4
    thus ?thesis by (auto simp: bit_simps)
  next
    case 5
    thus ?thesis by (auto simp: bit_simps dest: bit_imp_le_length)
  qed
qed

lemma slice_mid:
  assumes "length pre \<le> a" "b - length pre \<le> length data"
  shows "slice (pre @ data @ post) a b = slice data (a - length pre) (b - length pre)"
proof -
  obtain a' where a': "a = length pre + a'" using assms(1) by (metis le_Suc_ex)
  show ?thesis
  proof (cases "a \<le> b")
    case True
    then obtain d where d: "b = a + d" by (metis le_Suc_ex)
    have "a' + d \<le> length data" using assms(2) a' d by simp
    thus ?thesis by (simp add: slice_def a' d)
  next
    case False
    thus ?thesis by (simp add: slice_def)
  qed
qed

lemma readText_mid:
  assumes "length pre \<le> s" "s - length pre + n \<le> length data"
  shows "readText (pre @ data @ post) s n = readText data (s - length pre) n"
proof -
  have "slice (pre @ data @ post) s (s + n) = slice data (s - length pre) (s + n - length pre)"
    using assms by (intro slice_mid) simp_all
  moreover have "s + n - length pre = s - length pre + n" using assms(1) by simp
  ultimately show ?thesis by (simp add: readText_def)
qed

lemma find_nul_bounds: "find_nul buf i stop = Some k \<Longrightarrow> i \<le> k \<and> k < stop \<and> k < length buf"
proof (induction buf i stop rule: find_nul.induct)
  case (1 buf i stop)
  show ?case
  proof (cases "i < stop")
    case True
    show ?thesis
    proof (cases "i < length buf \<and> buf ! i = 0")
      case t: True
      with True "1.prems" have "k = i" by (subst (asm) find_nul.simps) simp
      with True t show ?thesis by simp
    next
      case f: False
      with True "1.prems" have "find_nul buf (Suc i) stop = Some k"
        by (subst (asm) find_nul.simps) auto
      from "1.IH"[OF True f this] show ?thesis by simp
    qed
  next
    case False
    with "1.prems" show ?thesis by (subst (asm) find_nul.simps) simp
  qed
qed

lemma find_nul_shift:
  "stop \<le> length data \<Longrightarrow>
   find_nul (pre @ data @ post) (length pre + i) (length pre + stop)
     = map_option (\<lambda>k. length pre + k) (find_nul data i stop)"
proof (induction data i stop rule: find_nul.induct)
  case (1 data i stop)
  show ?case
  proof (cases "i < stop")
    case True
    hence il: "i < length data" using "1.prems" by simp
    hence nth: "(pre @ data @ post) ! (length pre + i) = data ! i" by (simp add: nth_append)
    show ?thesis
    proof (cases "data ! i = 0")
      case z: True
      thus ?thesis using True il nth
        by (subst find_nul.simps, subst (2) find_nul.simps) simp
    next
      case nz: False
      hence f: "\<not> (i < length data \<and> data ! i = 0)" by simp
      from "1.IH"[OF True f "1.prems"]
      have "find_nul (pre @ data @ post) (Suc (length pre + i)) (length pre + stop)
            = map_option (\<lambda>k. length pre + k) (find_nul data (Suc i) stop)" by simp
      thus ?thesis using True il nth nz
        by (subst find_nul.simps, subst (2) find_nul.simps) simp
    qed
  next
    case False
    thus ?thesis by (subst find_nul.simps, subst (2) find_nul.simps) simp
  qed
qed

lemma find_text_start_bounds:
  "find_text_start buf cur nc stop = Some k \<Longrightarrow> cur < k \<and> k \<le> stop \<and> k \<le> length buf"
proof (induction buf cur nc stop rule: find_text_start.induct)
  case (1 buf cur nc stop)
  show ?case
  proof (cases "cur < stop")
    case True
    show ?thesis
    proof (cases "cur < length buf \<and> buf ! cur = 0")
      case z: True
      show ?thesis
      proof (cases "Suc nc = 2")
        case two: True
        with True z "1.prems" have "k = cur + 1" by (subst (asm) find_text_start.simps) simp
        with True z show ?thesis by simp
      next
        case nt: False
        with True z "1.prems" have "find_text_start buf (Suc cur) (Suc nc) stop = Some k"
          by (subst (asm) find_text_start.simps) simp
        from "1.IH"(1)[OF True z nt this] show ?thesis by simp
      qed
    next
      case nz: False
      with True "1.prems" have "find_text_start buf (Suc cur) nc stop = Some k"
        by (subst (asm) find_text_start.simps) auto
      from "1.IH"(2)[OF True nz this] show ?thesis by simp
    qed
  next
    case False
    with "1.prems" show ?thesis by (subst (asm) find_text_start.simps) simp
  qed
qed

lemma find_text_start_shift:
  "stop \<le> length data \<Longrightarrow>
   find_text_start (pre @ data @ post) (length pre + cur) nc (length pre + stop)
     = map_option (\<lambda>k. length pre + k) (find_text_start data cur nc stop)"
proof (induction data cur nc stop rule: find_text_start.induct)
  case (1 data cur nc stop)
  show ?case
  proof (cases "cur < stop")
    case True
    hence il: "cur < length data" using "1.prems" by simp
    hence nth: "(pre @ data @ post) ! (length pre + cur) = data ! cur" by (simp add: nth_append)
    show ?thesis
    proof (cases "data ! cur = 0")
      case z: True
      hence zz: "cur < length data \<and> data ! cur = 0" using il by simp
      show ?thesis
      proof (cases "Suc nc = 2")
        case two: True
        thus ?thesis using True il nth z
          by (subst find_text_start.simps, subst (2) find_text_start.simps) simp
      next
        case nt: False
        from "1.IH"(1)[OF True zz nt "1.prems"]
        have "find_text_start (pre @ data @ post) (Suc (length pre + cur)) (Suc nc) (length pre + stop)
              = map_option (\<lambda>k. length pre + k) (find_text_start data (Suc cur) (Suc nc) stop)"
          by simp
        thus ?thesis using True il nth z nt
          by (subst find_text_start.simps, subst (2) find_text_start.simps) simp
      qed
    next
      case nz: False
      hence f: "\<not> (cur < length data \<and> data ! cur = 0)" by simp
      from "1.IH"(2)[OF True f "1.prems"]
      have "find_text_start (pre @ data @ post) (Suc (length pre + cur)) nc (length pre + stop)
            = map_option (\<lambda>k. length pre + k) (find_text_start data (Suc cur) nc stop)" by simp
      thus ?thesis using True il nth nz
        by (subst find_text_start.simps, subst (2) find_text_start.simps) simp
    qed
  next
    case False
    thus ?thesis by (subst find_text_start.simps, subst (2) find_text_start.simps) simp
  qed
qed

lemma text_chunk_mid:
  "text_chunk (pre @ data @ post) (length pre) (length pre + length data)
   = text_chunk data 0 (length data)"
proof (cases "find_nul data 0 (length data)")
  case None
  with find_nul_shift[of "length data" data pre post 0]
  show ?thesis by (simp add: text_chunk_def)
next
  case (Some sep)
  from find_nul_bounds[OF Some] have b: "sep < length data" by simp
  from find_nul_shift[of "length data" data pre post 0] Some
  have f: "find_nul (pre @ data @ post) (length pre) (length pre + length data) = Some (length pre + sep)"
    by simp
  have k: "readText (pre @ data @ post) (length pre) (length pre + sep - length pre)
           = readText data 0 (sep - 0)"
    using b by (subst readText_mid) simp_all
  have t: "readText (pre @ data @ post) (length pre + sep + 1) (length pre + length data - (length pre + sep) - 1)
           = readText data (sep + 1) (length data - sep - 1)"
    using b by (subst readText_mid) simp_all
  show ?thesis unfolding text_chunk_def f Some option.case Let_def k t ..
qed

lemma ztxt_chunk_mid:
  "ztxt_chunk p (pre @ data @ post) (length pre) (length pre + length data)
   = ztxt_chunk p data 0 (length data)"
proof (cases "find_nul data 0 (length data)")
  case None
  with find_nul_shift[of "length data" data pre post 0]
  show ?thesis by (simp add: ztxt_chunk_def)
next
  case (Some sep)
  from find_nul_bounds[OF Some] have b: "sep < length data" by simp
  from find_nul_shift[of "length data" data pre post 0] Some
  have f: "find_nul (pre @ data @ post) (length pre) (length pre + length data) = Some (length pre + sep)"
    by simp
  have k: "readText (pre @ data @ post) (length pre) (length pre + sep - length pre)
           = readText data 0 (sep - 0)"
    using b by (subst readText_mid) simp_all
  have t: "slice (pre @ data @ post) (length pre + sep + 2) (length pre + length data)
           = slice data (sep + 2) (length data)"
    by (subst slice_mid) simp_all
  show ?thesis unfolding ztxt_chunk_def f Some option.case Let_def k t ..
qed

lemma itxt_chunk_mid:
  "itxt_chunk p (pre @ data @ post) (length pre) (length pre + length data)
   = itxt_chunk p data 0 (length data)"
proof (cases "find_nul data 0 (length data)")
  case None
  with find_nul_shift[of "length data" data pre post 0]
  show ?thesis by (simp add: itxt_chunk_def)
next
  case (Some sep)
  from find_nul_bounds[OF Some] have b: "sep < length data" by simp
  from find_nul_shift[of "length data" data pre post 0] Some
  have f: "find_nul (pre @ data @ post) (length pre) (length pre + length data) = Some (length pre + sep)"
    by simp
  have k: "readText (pre @ data @ post) (length pre) (length pre + sep - length pre)
           = readText data 0 (sep - 0)"
    using b by (subst readText_mid) simp_all
  have s: "find_text_start (pre @ data @ post) (length pre + sep + 3) 0 (length pre + length data)
           = map_option (\<lambda>k. length pre + k) (find_text_start data (sep + 3) 0 (length data))"
    using find_text_start_shift[of "length data" data pre post "sep + 3" 0] by (simp add: add.assoc)
  show ?thesis
  proof (cases "find_text_start data (sep + 3) 0 (length data)")
    case n: None
    thus ?thesis unfolding itxt_chunk_def f Some option.case Let_def k s by simp
  next
    case ts: (Some ts)
    from find_text_start_bounds[OF ts] have tb: "sep + 3 < ts" "ts \<le> length data" by simp_all
    hence c1: "sep + 1 < length data" by simp
    hence c: "(if length pre + sep + 1 < length (pre @ data @ post)
               then Some ((pre @ data @ post) ! (length pre + sep + 1)) else None)
              = (if sep + 1 < length data then Some (data ! (sep + 1)) else None)"
      by (simp add: nth_append)
    have r: "slice (pre @ data @ post) (length pre + ts) (length pre + length data)
             = slice data ts (length data)"
      by (subst slice_mid) simp_all
    have t: "readText (pre @ data @ post) (length pre + ts) (length pre + length data - (length pre + ts))
             = readText data ts (length data - ts)"
      using tb by (subst readText_mid) simp_all
    have t2: "readText (pre @ data @ post) (length pre + ts) (length data - ts)
             = readText data ts (length data - ts)"
      using tb by (subst readText_mid) simp_all
    show ?thesis
      unfolding itxt_chunk_def f Some option.case Let_def k s ts option.map c
      by (simp add: r t2)
  qed
qed

lemma chunk_reading_mid:
  "chunk_reading p (pre @ data @ post) ty (length pre) (length pre + length data)
   = chunk_reading p data ty 0 (length data)"
  by (simp add: chunk_reading_def text_chunk_mid ztxt_chunk_mid itxt_chunk_mid)

lemma getUint32_be32: "getUint32 (pre @ be32 w @ rest) (length pre) = Inr w"
proof -
  have "getUint32 (pre @ be32 w @ rest) (length pre)
        = Inr (push_bit 24 (ucast (ucast (drop_bit 24 w) :: byte))
               OR push_bit 16 (ucast (ucast (drop_bit 16 w) :: byte))
               OR push_bit 8 (ucast (ucast (drop_bit 8 w) :: byte)) OR ucast (ucast w :: byte))"
    by (simp add: getUint32_def be32_def nth_append)
  thus ?thesis by (simp only: be32_roundtrip)
qed

lemma unat_length: "n < 2 ^ 32 \<Longrightarrow> unat (word_of_nat n :: u32) = n"
  by (simp add: unat_of_nat)

lemma length_chunk_bytes:
  "chunk_ok (ty, payload, crc) \<Longrightarrow> length (chunk_bytes (ty, payload, crc)) = 12 + length payload"
  by (simp add: be32_def)

lemma scanChunks_never_raises: "\<exists>st'. scanChunks p buf offset st = Inr st'"
proof (induction p buf offset st rule: scanChunks.induct)
  case (1 p buf offset st)
  show ?case
  proof (cases "offset < length buf \<and> \<not> offset + 8 > length buf")
    case False
    thus ?thesis by (subst scanChunks.simps) auto
  next
    case True
    hence a: "offset < length buf" and b: "\<not> offset + 8 > length buf" by simp_all
    from b obtain w where w: "getUint32 buf offset = Inr w" by (auto simp: getUint32_def)
    show ?thesis
    proof (cases "offset + 8 + unat w > length buf")
      case t: True
      thus ?thesis using a b w by (subst scanChunks.simps) (simp add: Let_def)
    next
      case f: False
      from "1.IH"[OF a b w refl refl refl refl]  f
      have "\<exists>st'. scanChunks p buf (offset + 8 + unat w + 4)
                    (process_chunk p buf (readText buf (offset + 4) 4) (offset + 8)
                       (offset + 8 + unat w) st) = Inr st'"
        by simp
      thus ?thesis using a b w f by (subst scanChunks.simps) (simp add: Let_def)
    qed
  qed
qed

lemma scanChunks_end: "length buf \<le> offset \<Longrightarrow> scanChunks p buf offset st = Inr st"
  by (subst scanChunks.simps) simp

lemma scanChunks_step:
  assumes "chunk_ok c"
  shows "scanChunks p (pre @ chunk_bytes c @ post) (length pre) st
         = scanChunks p (pre @ chunk_bytes c @ post) (length pre + length (chunk_bytes c))
             (chunk_effect p c st)"
proof -
  obtain ty payload crc where c: "c = (ty, payload, crc)" by (cases c)
  from assms c have ok: "length ty = 4" "length crc = 4" "length payload < 2 ^ 32" by simp_all
  let ?w = "word_of_nat (length payload) :: u32"
  let ?buf = "pre @ chunk_bytes c @ post"
  have buf1: "?buf = pre @ be32 ?w @ (ty @ payload @ crc @ post)" by (simp add: c)
  have buf2: "?buf = (pre @ be32 ?w) @ ty @ (payload @ crc @ post)" by (simp add: c)
  have buf3: "?buf = (pre @ be32 ?w @ ty) @ payload @ (crc @ post)" by (simp add: c)
  have l3: "length (pre @ be32 ?w @ ty) = length pre + 8"
    by (simp add: be32_def ok)
  have len: "length (chunk_bytes c) = 12 + length payload"
    by (simp add: c be32_def ok)
  have g: "getUint32 ?buf (length pre) = Inr ?w" unfolding buf1 by (rule getUint32_be32)
  have u: "unat ?w = length payload" using ok(3) by (rule unat_length)
  have "readText ?buf (length pre + 4) 4
        = readText ty (length pre + 4 - length (pre @ be32 ?w)) 4"
    unfolding buf2 by (rule readText_mid) (simp_all add: be32_def ok)
  also have "\<dots> = readText ty 0 4" by (simp add: be32_def)
  finally have t: "readText ?buf (length pre + 4) 4 = readText ty 0 4" .
  have "chunk_reading p ?buf (readText ty 0 4) (length pre + 8) (length pre + 8 + length payload)
        = chunk_reading p payload (readText ty 0 4) 0 (length payload)"
    using chunk_reading_mid[of p "pre @ be32 ?w @ ty" payload "crc @ post" "readText ty 0 4"]
    unfolding buf3[symmetric] l3 .
  hence e: "process_chunk p ?buf (readText ty 0 4) (length pre + 8) (length pre + 8 + length payload) st
            = chunk_effect p c st"
    by (simp add: process_chunk_def chunk_effect_def reading_def c)
  hence e2: "process_chunk p ?buf (readText ty 0 4) (length pre + 8) (length pre + (8 + length payload)) st
            = chunk_effect p c st"
    by (simp only: add.assoc)
  show ?thesis
    by (subst scanChunks.simps)
       (simp add: Let_def g u t e2 len add.assoc del: chunk_bytes.simps scanChunks.simps)
qed

lemma scanChunks_chunks:
  assumes "\<forall>c\<in>set cs. chunk_ok c"
  shows "scanChunks p (pre @ concat (map chunk_bytes cs) @ tail) (length pre) st
         = scanChunks p (pre @ concat (map chunk_bytes cs) @ tail)
             (length pre + length (concat (map chunk_bytes cs))) (run_chunks p cs st)"
  using assms
proof (induction cs arbitrary: pre st)
  case Nil
  show ?case by simp
next
  case (Cons c cs)
  let ?rest = "concat (map chunk_bytes cs)"
  have ok: "chunk_ok c" and oks: "\<forall>c\<in>set cs. chunk_ok c" using Cons.prems by simp_all
  have b: "pre @ concat (map chunk_bytes (c # cs)) @ tail = pre @ chunk_bytes c @ (?rest @ tail)"
    by simp
  have b2: "pre @ chunk_bytes c @ (?rest @ tail) = (pre @ chunk_bytes c) @ ?rest @ tail" by simp
  have "scanChunks p (pre @ chunk_bytes c @ (?rest @ tail)) (length pre) st
        = scanChunks p (pre @ chunk_bytes c @ (?rest @ tail)) (length pre + length (chunk_bytes c))
            (chunk_effect p c st)"
    by (rule scanChunks_step[OF ok])
  also have "\<dots> = scanChunks p ((pre @ chunk_bytes c) @ ?rest @ tail)
                     (length (pre @ chunk_bytes c)) (chunk_effect p c st)"
    unfolding b2 by simp
  also have "\<dots> = scanChunks p ((pre @ chunk_bytes c) @ ?rest @ tail)
                     (length (pre @ chunk_bytes c) + length ?rest)
                     (run_chunks p cs (chunk_effect p c st))"
    by (rule Cons.IH[OF oks])
  finally show ?case unfolding b b2 by (simp add: add.assoc)
qed

lemma getUint32_shift_gen:
  "k + 4 \<le> length tail \<Longrightarrow> getUint32 (pre @ tail) (length pre + k) = getUint32 tail k"
  by (simp add: getUint32_def nth_append add.assoc)

lemma getUint32_shift:
  "8 \<le> length tail \<Longrightarrow> getUint32 (pre @ tail) (length pre) = getUint32 tail 0"
  using getUint32_shift_gen[of 0 tail pre] by simp

lemma scanChunks_truncated:
  assumes "truncated tail"
  shows "scanChunks p (pre @ tail) (length pre) st = Inr st"
proof (cases "length tail < 8")
  case True
  thus ?thesis by (subst scanChunks.simps) simp
next
  case False
  hence l: "8 \<le> length tail" by simp
  then obtain w where w: "getUint32 tail 0 = Inr w" by (auto simp: getUint32_def)
  with assms False have over: "8 + unat w > length tail" by (simp add: truncated_def)
  have g: "getUint32 (pre @ tail) (length pre) = Inr w" using getUint32_shift[OF l] w by simp
  show ?thesis using l over g by (subst scanChunks.simps) (simp add: Let_def)
qed

lemma scanChunks_file:
  assumes "\<forall>c\<in>set cs. chunk_ok c" "truncated tail"
  shows "scanChunks p (png_file cs tail) 8 st = Inr (run_chunks p cs st)"
proof -
  have l: "length PNG_SIG = 8" by (simp add: PNG_SIG_def)
  have "scanChunks p (PNG_SIG @ concat (map chunk_bytes cs) @ tail) (length PNG_SIG) st
        = scanChunks p (PNG_SIG @ concat (map chunk_bytes cs) @ tail)
            (length PNG_SIG + length (concat (map chunk_bytes cs))) (run_chunks p cs st)"
    by (rule scanChunks_chunks[OF assms(1)])
  also have "\<dots> = scanChunks p ((PNG_SIG @ concat (map chunk_bytes cs)) @ tail)
                     (length (PNG_SIG @ concat (map chunk_bytes cs))) (run_chunks p cs st)"
    by simp
  also have "\<dots> = Inr (run_chunks p cs st)" by (rule scanChunks_truncated[OF assms(2)])
  finally show ?thesis by (simp add: png_file_def l)
qed

lemma truncated_Nil: "truncated []"
  by (simp add: truncated_def)

lemma take8_png_file: "take 8 (png_file cs tail) = PNG_SIG"
  by (simp add: png_file_def PNG_SIG_def)

lemma fallbackChunks_record_text:
  "fallbackChunks (record_text p known txt st)
   = fallbackChunks st @ (if looks_like_card txt then [txt] else [])"
  by (simp add: record_text_def interpret_text_def Let_def split: option.splits)

lemma characterData_record_text:
  "characterData (record_text p known txt st)
   = (if known then (case parse_card_text p txt of Some v \<Rightarrow> v | None \<Rightarrow> characterData st)
      else characterData st)"
  by (simp add: record_text_def interpret_text_def Let_def split: option.splits)

lemma fallbackChunks_chunk_effect:
  "fallbackChunks (chunk_effect p c st)
   = fallbackChunks st @ (case reading p c of None \<Rightarrow> []
        | Some (known, txt) \<Rightarrow> if looks_like_card txt then [txt] else [])"
  by (simp add: chunk_effect_def fallbackChunks_record_text split: option.splits prod.splits)

lemma characterData_chunk_effect:
  "characterData (chunk_effect p c st)
   = (case card_chunk_value p c of Some v \<Rightarrow> v | None \<Rightarrow> characterData st)"
  by (simp add: chunk_effect_def card_chunk_value_def characterData_record_text
      split: option.splits prod.splits)

lemma fallbackChunks_run_chunks:
  "fallbackChunks (run_chunks p cs st) = fallbackChunks st @ candidates p cs"
proof (induction cs arbitrary: st)
  case Nil
  show ?case by (simp add: candidates_def)
next
  case (Cons c cs)
  have "candidates p (c # cs)
        = (case reading p c of None \<Rightarrow> []
           | Some (known, txt) \<Rightarrow> if looks_like_card txt then [txt] else []) @ candidates p cs"
    by (simp add: candidates_def)
  thus ?case using Cons.IH[of "chunk_effect p c st"]
    by (simp add: fallbackChunks_chunk_effect)
qed

lemma characterData_run_chunks_none:
  "\<forall>c\<in>set cs. card_chunk_value p c = None \<Longrightarrow>
   characterData (run_chunks p cs st) = characterData st"
  by (induction cs arbitrary: st) (simp_all add: characterData_chunk_effect)

lemma run_chunks_append: "run_chunks p (xs @ ys) st = run_chunks p ys (run_chunks p xs st)"
  by (induction xs arbitrary: st) simp_all

lemma characterData_run_chunks_last:
  assumes "card_chunk_value p c = Some v" "\<forall>c'\<in>set after. card_chunk_value p c' = None"
  shows "characterData (run_chunks p (before @ c # after) st) = v"
proof -
  have "run_chunks p (before @ c # after) st
        = run_chunks p after (chunk_effect p c (run_chunks p before st))"
    by (simp add: run_chunks_append)
  thus ?thesis
    using assms by (simp add: characterData_run_chunks_none characterData_chunk_effect)
qed


lemma has_name_truthy: "has_name d \<Longrightarrow> truthy d"
  by (cases d) (auto simp: has_name_def optget_def)

lemma try_raw_Some: "try_raw p x = Some d \<Longrightarrow> has_name d \<and> json_parse p x = Some d"
  by (auto simp: try_raw_def split: option.splits if_splits)

lemma try_candidate_Some:
  "try_candidate p x = Some d \<Longrightarrow>
     has_name d \<and> ((\<exists>s. decodeBase64Utf8 p x = Inr s \<and> json_parse p s = Some d)
                    \<or> json_parse p x = Some d)"
  by (auto simp: try_candidate_def split: sum.splits option.splits if_splits dest: try_raw_Some)

lemma fallbackScan_first:
  "fallbackScan p xs = Some d \<longleftrightarrow>
     (\<exists>i<length xs. try_candidate p (xs ! i) = Some d \<and> (\<forall>j<i. try_candidate p (xs ! j) = None))"
proof (induction xs)
  case Nil
  show ?case by simp
next
  case (Cons x xs)
  show ?case
  proof (cases "try_candidate p x")
    case None
    have "(\<exists>i<length (x # xs). try_candidate p ((x # xs) ! i) = Some d
              \<and> (\<forall>j<i. try_candidate p ((x # xs) ! j) = None))
          \<longleftrightarrow> (\<exists>i<length xs. try_candidate p (xs ! i) = Some d
              \<and> (\<forall>j<i. try_candidate p (xs ! j) = None))" (is "?L \<longleftrightarrow> ?R")
    proof
      assume ?L
      then obtain i where i: "i < length (x # xs)" "try_candidate p ((x # xs) ! i) = Some d"
        "\<forall>j<i. try_candidate p ((x # xs) ! j) = None" by blast
      with None obtain k where k: "i = Suc k" by (cases i) auto
      have "\<forall>j<k. try_candidate p (xs ! j) = None"
      proof (intro allI impI)
        fix j assume "j < k"
        hence "Suc j < i" using k by simp
        with i(3) have "try_candidate p ((x # xs) ! Suc j) = None" by blast
        thus "try_candidate p (xs ! j) = None" by simp
      qed
      with i k show ?R by auto
    next
      assume ?R
      then obtain i where i: "i < length xs" "try_candidate p (xs ! i) = Some d"
        "\<forall>j<i. try_candidate p (xs ! j) = None" by blast
      have "\<forall>j<Suc i. try_candidate p ((x # xs) ! j) = None"
        using None i(3) by (auto simp: nth_Cons split: nat.splits)
      with i show ?L by (intro exI[of _ "Suc i"]) simp
    qed
    with None Cons.IH show ?thesis by simp
  next
    case (Some d')
    have "(\<exists>i<length (x # xs). try_candidate p ((x # xs) ! i) = Some d
              \<and> (\<forall>j<i. try_candidate p ((x # xs) ! j) = None)) \<longleftrightarrow> d' = d" (is "?L \<longleftrightarrow> _")
    proof
      assume ?L
      then obtain i where i: "try_candidate p ((x # xs) ! i) = Some d"
        "\<forall>j<i. try_candidate p ((x # xs) ! j) = None" by blast
      have "i = 0"
      proof (rule ccontr)
        assume "i \<noteq> 0"
        hence "0 < i" by simp
        with i(2) have "try_candidate p ((x # xs) ! 0) = None" by blast
        with Some show False by simp
      qed
      with i Some show "d' = d" by simp
    next
      assume "d' = d"
      with Some show ?L by (intro exI[of _ 0]) simp
    qed
    with Some show ?thesis by simp
  qed
qed

lemma fallbackScan_truthy: "fallbackScan p xs = Some d \<Longrightarrow> truthy d"
  using fallbackScan_first[of p xs d] try_candidate_Some has_name_truthy by blast

lemma findCharacterData_scan:
  assumes "take 8 buf = PNG_SIG" "scanChunks p buf 8 initial_state = Inr st"
  shows "findCharacterData p buf =
     (if truthy (characterData st) then Inr (characterData st)
      else (case fallbackScan p (fallbackChunks st) of Some d \<Rightarrow> Inr d | None \<Rightarrow> Inl NoCardData))"
proof (cases "truthy (characterData st)")
  case True
  thus ?thesis using assms by (simp add: findCharacterData_def initial_state_def Let_def)
next
  case False
  show ?thesis
  proof (cases "fallbackScan p (fallbackChunks st)")
    case None
    thus ?thesis using False assms
      by (simp add: findCharacterData_def initial_state_def Let_def)
  next
    case (Some d)
    hence ne: "fallbackChunks st \<noteq> []" by (cases "fallbackChunks st") auto
    from fallbackScan_truthy[OF Some] have "truthy d" .
    thus ?thesis using False assms Some ne
      by (simp add: findCharacterData_def initial_state_def Let_def)
  qed
qed

lemma findCharacterData_file:
  assumes "\<forall>c\<in>set cs. chunk_ok c" "truncated tail"
  shows "findCharacterData p (png_file cs tail) =
     (if truthy (characterData (run_chunks p cs initial_state))
      then Inr (characterData (run_chunks p cs initial_state))
      else (case fallbackScan p (candidates p cs) of Some d \<Rightarrow> Inr d | None \<Rightarrow> Inl NoCardData))"
proof -
  have f: "fallbackChunks (run_chunks p cs initial_state) = candidates p cs"
    by (simp add: fallbackChunks_run_chunks initial_state_def)
  show ?thesis
    using findCharacterData_scan[OF take8_png_file scanChunks_file[OF assms]] by (simp only: f)
qed

lemma char_byte_zero: "char_byte c = 0 \<longleftrightarrow> c = CHR 0x00"
proof
  assume "char_byte c = 0"
  hence "byte_char (char_byte c) = byte_char 0" by simp
  moreover have "byte_char 0 = CHR 0x00" by code_simp
  ultimately show "c = CHR 0x00" by (simp only: byte_char_char_byte)
next
  assume "c = CHR 0x00"
  thus "char_byte c = 0" by (simp add: char_byte_def)
qed

lemma find_nul_first:
  assumes "\<forall>x\<in>set a. x \<noteq> 0" "length a < stop"
  shows "i \<le> length a \<Longrightarrow> find_nul (a @ 0 # b) i stop = Some (length a)"
proof (induction "length a - i" arbitrary: i)
  case 0
  hence "i = length a" by simp
  thus ?case using assms(2) by (subst find_nul.simps) simp
next
  case (Suc n)
  hence il: "i < length a" by simp
  hence "(a @ 0 # b) ! i \<noteq> 0" using assms(1) by (simp add: nth_append)
  moreover have "find_nul (a @ 0 # b) (Suc i) stop = Some (length a)"
    using Suc il by (intro Suc.hyps) simp_all
  moreover have "i < stop" using il assms(2) by simp
  ultimately show ?case by (subst find_nul.simps) simp
qed

lemma type_tEXt: "readText (encodeText ''tEXt'') 0 4 = ''tEXt''"
  by code_simp

lemma type_iTXt: "readText (encodeText ''iTXt'') 0 4 = ''iTXt''"
  by code_simp

lemma reading_tEXt:
  assumes "CHR 0x00 \<notin> set kw"
  shows "reading p (tEXt kw txt)
         = Some (toLowerCase (utf8_decode (encodeText kw)) \<in> set KNOWN_KEYS,
                 utf8_decode (encodeText txt))"
proof -
  let ?a = "encodeText kw" and ?b = "encodeText txt"
  let ?data = "?a @ 0 # ?b"
  have nz: "\<forall>x\<in>set ?a. x \<noteq> 0"
    using assms by (auto simp: encodeText_def char_byte_zero)
  have f: "find_nul ?data 0 (length ?data) = Some (length ?a)"
    by (rule find_nul_first[OF nz]) simp_all
  have k: "readText ?data 0 (length ?a) = utf8_decode ?a"
    by (simp add: readText_def slice_def)
  have t: "readText ?data (length ?a + 1) (length ?data - length ?a - 1) = utf8_decode ?b"
    by (simp add: readText_def slice_def)
  have "text_chunk ?data 0 (length ?data)
        = Some (toLowerCase (utf8_decode ?a) \<in> set KNOWN_KEYS, utf8_decode ?b)"
    unfolding text_chunk_def f option.case Let_def using k t by simp
  thus ?thesis
    by (simp add: reading_def tEXt_def text_payload_def chunk_reading_def type_tEXt)
qed

lemma reading_tEXt_ascii:
  assumes "CHR 0x00 \<notin> set kw" "ascii kw" "ascii txt"
  shows "reading p (tEXt kw txt) = Some (toLowerCase kw \<in> set KNOWN_KEYS, txt)"
  by (simp add: reading_tEXt[OF assms(1)] utf8_decode_encodeText assms)

lemma chunk_ok_tEXt:
  "length kw + length txt < 1000 \<Longrightarrow> chunk_ok (tEXt kw txt)"
  by (simp add: tEXt_def text_payload_def length_be32 length_encodeText)


lemma card_chunk_value_tEXt:
  assumes "CHR 0x00 \<notin> set kw" "ascii kw" "ascii txt"
  shows "card_chunk_value p (tEXt kw txt)
         = (if toLowerCase kw \<in> set KNOWN_KEYS then parse_card_text p txt else None)"
  by (simp add: card_chunk_value_def reading_tEXt_ascii[OF assms])

lemma map_err_Inl: "map_err f xs = Inl e \<Longrightarrow> \<exists>x\<in>set xs. f x = Inl e"
  by (induction xs) (auto split: sum.splits)

lemma js_String_error: "js_String v = Inl e \<Longrightarrow> e = TypeError"
  by (cases v) (auto simp: Let_def split: if_splits)

lemma js_join_error: "js_join sep xs = Inl e \<Longrightarrow> e = TypeError"
  by (auto simp: js_join_def Let_def split: if_splits)

lemma add_keysInput_error: "add_keysInput x = Inl e \<Longrightarrow> e = TypeError"
  by (auto simp: add_keysInput_def split: if_splits json.splits sum.splits dest: js_join_error)

lemma buildCharacter_error: "buildCharacter r f a i fmt n = Inl e \<Longrightarrow> e = TypeError"
proof -
  assume b: "buildCharacter r f a i fmt n = Inl e"
  have u: "\<And>d. unwrap r = Inl e \<Longrightarrow> e = TypeError" by (auto simp: unwrap_def split: if_splits)
  have t: "\<And>x. import_tags x = Inl e \<Longrightarrow> e = TypeError"
    by (auto simp: import_tags_def split: json.splits sum.splits
        dest!: map_err_Inl dest: js_String_error)
  have k: "\<And>x. import_book x = Inl e \<Longrightarrow> e = TypeError"
    by (auto simp: import_book_def js_map_def split: if_splits json.splits sum.splits
        dest!: map_err_Inl dest: add_keysInput_error)
  from b show ?thesis
    by (auto simp: buildCharacter_def split: sum.splits dest: u t k)
qed

lemma parseCharacterCard_NoCardData:
  "parseCharacterCard p buf f a i n = Inl NoCardData \<longleftrightarrow> findCharacterData p buf = Inl NoCardData"
  by (auto simp: parseCharacterCard_def split: sum.splits dest: buildCharacter_error)

section \<open>Decoding: which chunk gives the card\<close>















text \<open>Facts about the example texts.\<close>

lemma no_nul_chara:
  "CHR 0x00 \<notin> set ''chara''" "CHR 0x00 \<notin> set ''Chara''" "CHR 0x00 \<notin> set ''comment''"
  "CHR 0x00 \<notin> set (BOM @ ''chara'')"
  by (simp_all add: BOM_def)

lemma known_chara: "toLowerCase ''chara'' \<in> set KNOWN_KEYS" "toLowerCase ''Chara'' \<in> set KNOWN_KEYS"
  "toLowerCase ''comment'' \<notin> set KNOWN_KEYS"
  by code_simp+

lemma ascii_examples:
  \<open>ascii ''chara''\<close> \<open>ascii ''Chara''\<close> \<open>ascii ''comment''\<close>
  \<open>ascii ''{"name":"First"}''\<close> \<open>ascii ''{"name":"Second"}''\<close>
  \<open>ascii ''{"description":"x"}''\<close> \<open>ascii ''0''\<close>
  \<open>ascii ''{"name":"Aria","description":"A guide."}''\<close>
  \<open>ascii ''{"name":""}''\<close> \<open>ascii ''{"name":"Aria"}''\<close>
  \<open>ascii ''eyJuYW1lIjoiQXJpYSJ9''\<close>
  by code_simp+

lemma decoded_examples:
  \<open>utf8_decode (encodeText (BOM @ ''chara'')) = ''chara''\<close>
  \<open>utf8_decode (encodeText (BOM @ [CHR 0xC2, CHR 0xA0] @ ''{"name":"Aria"}''))
     = [CHR 0xC2, CHR 0xA0] @ ''{"name":"Aria"}''\<close>
  \<open>utf8_decode (encodeText ''comment'') = ''comment''\<close>
  \<open>utf8_decode (encodeText ''{"name":"Second"}'') = ''{"name":"Second"}''\<close>
  by code_simp+

lemma parse_First:
  \<open>parse_card_text example_platform ''{"name":"First"}'' = Some (JObj [(''name'', JStr ''First'')])\<close>
  by code_simp


lemma parse_description:
  \<open>parse_card_text example_platform ''{"description":"x"}'' = Some (JObj [(''description'', JStr ''x'')])\<close>
  by code_simp

lemma parse_zero: \<open>parse_card_text example_platform ''0'' = Some (JNum 0)\<close>
  by code_simp

lemma parse_guide:
  \<open>parse_card_text example_platform ''{"name":"Aria","description":"A guide."}''
     = Some (JObj [(''name'', JStr ''Aria''), (''description'', JStr ''Aguide.'')])\<close>
  by code_simp

lemma looks:
  \<open>looks_like_card ''{"name":"First"}''\<close> \<open>looks_like_card ''{"name":"Second"}''\<close>
  \<open>looks_like_card ''{"description":"x"}''\<close> \<open>\<not> looks_like_card ''0''\<close>
  \<open>looks_like_card ''{"name":"Aria","description":"A guide."}''\<close>
  \<open>looks_like_card ''{"name":""}''\<close> \<open>looks_like_card ''{"name":"Aria"}''\<close>
  \<open>looks_like_card ([CHR 0xC2, CHR 0xA0] @ ''{"name":"Aria"}'')\<close>
  by code_simp+

lemma candidate_facts:
  \<open>try_candidate example_platform ''{"description":"x"}'' = None\<close>
  \<open>try_candidate example_platform ''{"name":""}'' = None\<close>
  \<open>try_candidate example_platform ''{"name":"Aria"}'' = Some (JObj [(''name'', JStr ''Aria'')])\<close>
  \<open>try_candidate example_platform ''{"name":"First"}'' = Some (JObj [(''name'', JStr ''First'')])\<close>
  \<open>try_candidate example_platform ([CHR 0xC2, CHR 0xA0] @ ''{"name":"Aria"}'')
     = Some (JObj [(''name'', JStr ''Aria'')])\<close>
  by code_simp+

lemma truncated_example: "truncated [0, 0, 0, 100, 116, 69, 88, 116, 99, 104]"
  by (simp add: truncated_def getUint32_def)



lemma reading_bom_text:
  \<open>reading p (tEXt ''comment'' (BOM @ [CHR 0xC2, CHR 0xA0] @ ''{"name":"Aria"}''))
     = Some (False, [CHR 0xC2, CHR 0xA0] @ ''{"name":"Aria"}'')\<close>
  by (simp add: reading_tEXt no_nul_chara decoded_examples known_chara del: append.simps)



text \<open>
  C6, as the code has it. The chunk walk never raises an error, at any offset of any
  buffer. In a file made of the signature, complete chunks and a truncated last chunk
  (too short for a header, or declaring more data than is left), the walk ends in the state
  the complete chunks give, \<^verbatim>\<open>parseCharacterCard\<close> returns what it returns without the
  truncated chunk, and the card data is found whenever the complete chunks left a truthy
  \<^verbatim>\<open>characterData\<close>. For every buffer with a valid signature, the no-card-data error is
  thrown exactly when the walk ends with a falsy \<^verbatim>\<open>characterData\<close> (no chunk read under a
  known keyword parsed, or the last one that parsed gave a falsy value) and no fallback
  candidate is accepted.
\<close>

theorem graceful_truncation:
  "(\<exists>st'. scanChunks p buf offset st = Inr st')
   \<and> ((\<forall>c\<in>set cs. chunk_ok c) \<and> truncated tail \<longrightarrow>
        scanChunks p (png_file cs tail) 8 initial_state = Inr (run_chunks p cs initial_state)
        \<and> parseCharacterCard p (png_file cs tail) f a i n
            = parseCharacterCard p (png_file cs []) f a i n
        \<and> (truthy (characterData (run_chunks p cs initial_state)) \<longrightarrow>
             findCharacterData p (png_file cs tail)
               = Inr (characterData (run_chunks p cs initial_state))))
   \<and> (take 8 buf = PNG_SIG \<and> scanChunks p buf 8 initial_state = Inr st2 \<longrightarrow>
        (parseCharacterCard p buf f a i n = Inl NoCardData
          \<longleftrightarrow> \<not> truthy (characterData st2) \<and> fallbackScan p (fallbackChunks st2) = None))"
proof -
  have c1: "\<exists>st'. scanChunks p buf offset st = Inr st'" by (rule scanChunks_never_raises)
  have c2: "(\<forall>c\<in>set cs. chunk_ok c) \<and> truncated tail \<longrightarrow>
        scanChunks p (png_file cs tail) 8 initial_state = Inr (run_chunks p cs initial_state)
        \<and> parseCharacterCard p (png_file cs tail) f a i n
            = parseCharacterCard p (png_file cs []) f a i n
        \<and> (truthy (characterData (run_chunks p cs initial_state)) \<longrightarrow>
             findCharacterData p (png_file cs tail)
               = Inr (characterData (run_chunks p cs initial_state)))"
  proof
    assume a: "(\<forall>c\<in>set cs. chunk_ok c) \<and> truncated tail"
    hence ok: "\<forall>c\<in>set cs. chunk_ok c" and tr: "truncated tail" by simp_all
    have s: "scanChunks p (png_file cs tail) 8 initial_state = Inr (run_chunks p cs initial_state)"
      by (rule scanChunks_file[OF ok tr])
    have "findCharacterData p (png_file cs tail) = findCharacterData p (png_file cs [])"
      by (simp only: findCharacterData_file[OF ok tr] findCharacterData_file[OF ok truncated_Nil])
    hence e: "parseCharacterCard p (png_file cs tail) f a i n
              = parseCharacterCard p (png_file cs []) f a i n"
      by (simp add: parseCharacterCard_def)
    have t: "truthy (characterData (run_chunks p cs initial_state)) \<longrightarrow>
          findCharacterData p (png_file cs tail) = Inr (characterData (run_chunks p cs initial_state))"
      by (simp add: findCharacterData_file[OF ok tr])
    from s e t show "scanChunks p (png_file cs tail) 8 initial_state = Inr (run_chunks p cs initial_state)
        \<and> parseCharacterCard p (png_file cs tail) f a i n
            = parseCharacterCard p (png_file cs []) f a i n
        \<and> (truthy (characterData (run_chunks p cs initial_state)) \<longrightarrow>
             findCharacterData p (png_file cs tail)
               = Inr (characterData (run_chunks p cs initial_state)))"
      by (intro conjI)
  qed
  have c3: "take 8 buf = PNG_SIG \<and> scanChunks p buf 8 initial_state = Inr st2 \<longrightarrow>
        (parseCharacterCard p buf f a i n = Inl NoCardData
          \<longleftrightarrow> \<not> truthy (characterData st2) \<and> fallbackScan p (fallbackChunks st2) = None)"
  proof
    assume a: "take 8 buf = PNG_SIG \<and> scanChunks p buf 8 initial_state = Inr st2"
    hence f: "findCharacterData p buf =
       (if truthy (characterData st2) then Inr (characterData st2)
        else (case fallbackScan p (fallbackChunks st2) of Some d \<Rightarrow> Inr d | None \<Rightarrow> Inl NoCardData))"
      by (intro findCharacterData_scan) simp_all
    show "parseCharacterCard p buf f a i n = Inl NoCardData
            \<longleftrightarrow> \<not> truthy (characterData st2) \<and> fallbackScan p (fallbackChunks st2) = None"
      unfolding parseCharacterCard_NoCardData f by (simp split: option.splits)
  qed
  show ?thesis by (intro conjI) (rule c1, rule c2, rule c3)
qed


lemma ok_examples:
  \<open>chunk_ok (tEXt ''chara'' ''{"name":"First"}'')\<close>
  \<open>chunk_ok (tEXt ''chara'' ''{"name":"Second"}'')\<close>
  \<open>chunk_ok (tEXt ''Chara'' ''{"name":"Second"}'')\<close>
  \<open>chunk_ok (tEXt ''comment'' ''{"name":"First"}'')\<close>
  \<open>chunk_ok (tEXt ''chara'' ''{"description":"x"}'')\<close>
  \<open>chunk_ok (tEXt ''chara'' ''0'')\<close>
  \<open>chunk_ok (tEXt ''chara'' ''{"name":"Aria","description":"A guide."}'')\<close>
  \<open>chunk_ok (tEXt ''comment'' ''{"name":""}'')\<close>
  \<open>chunk_ok (tEXt ''comment'' ''{"name":"Aria"}'')\<close>
  \<open>chunk_ok (tEXt ''comment'' ''eyJuYW1lIjoiQXJpYSJ9'')\<close>
  \<open>chunk_ok (tEXt (BOM @ ''chara'') ''{"name":"Second"}'')\<close>
  \<open>chunk_ok (tEXt ''comment'' (BOM @ [CHR 0xC2, CHR 0xA0] @ ''{"name":"Aria"}''))\<close>
  by (rule chunk_ok_tEXt, simp add: BOM_def)+




text \<open>
  A card followed by a truncated chunk is read like the card alone; a truncated chunk alone
  gives the no-card-data error; a text that starts with a byte order mark and a no-break
  space under an unrecognized keyword does not.
\<close>

theorem graceful_truncation_witness:
  \<open>parseCharacterCard example_platform
      (png_file [tEXt ''chara'' ''{"name":"First"}''] [0, 0, 0, 100, 116, 69, 88, 116, 99, 104])
      ''a.png'' [] [] 0
    = parseCharacterCard example_platform (png_file [tEXt ''chara'' ''{"name":"First"}''] [])
      ''a.png'' [] [] 0
   \<and> findCharacterData example_platform
        (png_file [tEXt ''chara'' ''{"name":"First"}''] [0, 0, 0, 100, 116, 69, 88, 116, 99, 104])
      = Inr (JObj [(''name'', JStr ''First'')])
   \<and> parseCharacterCard example_platform (png_file [] [0, 0, 0, 100, 116, 69, 88, 116, 99, 104])
        ''a.png'' [] [] 0 = Inl NoCardData
   \<and> parseCharacterCard example_platform
        (png_file [tEXt ''comment'' (BOM @ [CHR 0xC2, CHR 0xA0] @ ''{"name":"Aria"}'')] [])
        ''a.png'' [] [] 0 \<noteq> Inl NoCardData\<close>
proof -
  let ?c = \<open>tEXt ''chara'' ''{"name":"First"}''\<close>
  let ?m = \<open>tEXt ''comment'' (BOM @ [CHR 0xC2, CHR 0xA0] @ ''{"name":"Aria"}'')\<close>
  let ?t = "[0, 0, 0, 100, 116, 69, 88, 116, 99, 104] :: byte list"
  have h: "(\<forall>c\<in>set [?c]. chunk_ok c) \<and> truncated ?t" using ok_examples truncated_example by simp
  have v: "card_chunk_value example_platform ?c = Some (JObj [(''name'', JStr ''First'')])"
    by (simp add: card_chunk_value_tEXt no_nul_chara known_chara ascii_examples parse_First)
  have cd: "characterData (run_chunks example_platform [?c] initial_state)
            = JObj [(''name'', JStr ''First'')]"
    by (simp add: characterData_chunk_effect v)
  note g = graceful_truncation[of example_platform "png_file [] ?t" 8 initial_state "[?c]" ?t
      "''a.png''" "[]" "[]" 0 initial_state]
  note g2 = g[THEN conjunct2, THEN conjunct1, THEN mp, OF h]
  have a: "parseCharacterCard example_platform (png_file [?c] ?t) ''a.png'' [] [] 0
           = parseCharacterCard example_platform (png_file [?c] []) ''a.png'' [] [] 0"
    by (rule g2[THEN conjunct2, THEN conjunct1])
  have b: "findCharacterData example_platform (png_file [?c] ?t) = Inr (JObj [(''name'', JStr ''First'')])"
    using g2[THEN conjunct2, THEN conjunct2]
    by (simp add: characterData_chunk_effect v del: scanChunks.simps)
  have s: "scanChunks example_platform (png_file [] ?t) 8 initial_state = Inr initial_state"
    using scanChunks_file[of "[]" ?t example_platform initial_state] truncated_example
    by (simp del: scanChunks.simps)
  have h3: "take 8 (png_file [] ?t) = PNG_SIG
            \<and> scanChunks example_platform (png_file [] ?t) 8 initial_state = Inr initial_state"
    using s take8_png_file[of "[]" ?t] by (intro conjI)
  have c: "parseCharacterCard example_platform (png_file [] ?t) ''a.png'' [] [] 0 = Inl NoCardData"
    using g[THEN conjunct2, THEN conjunct2, THEN mp, OF h3]
    by (simp add: initial_state_def del: scanChunks.simps)
  have okm: "\<forall>x\<in>set [?m]. chunk_ok x" using ok_examples by simp
  have sm: "scanChunks example_platform (png_file [?m] []) 8 initial_state
            = Inr (run_chunks example_platform [?m] initial_state)"
    by (rule scanChunks_file[OF okm truncated_Nil])
  have fm: \<open>fallbackChunks (run_chunks example_platform [?m] initial_state)
            = [[CHR 0xC2, CHR 0xA0] @ ''{"name":"Aria"}'']\<close>
    unfolding fallbackChunks_run_chunks
    by (simp add: initial_state_def candidates_def reading_bom_text looks del: append.simps)
  have h4: "take 8 (png_file [?m] []) = PNG_SIG
            \<and> scanChunks example_platform (png_file [?m] []) 8 initial_state
                = Inr (run_chunks example_platform [?m] initial_state)"
    using sm take8_png_file[of "[?m]" "[]"] by (intro conjI)
  note g4 = graceful_truncation[of example_platform "png_file [?m] []" 8 initial_state "[]" "[]"
      "''a.png''" "[]" "[]" 0 "run_chunks example_platform [?m] initial_state"]
  have d: "parseCharacterCard example_platform (png_file [?m] []) ''a.png'' [] [] 0 \<noteq> Inl NoCardData"
    using g4[THEN conjunct2, THEN conjunct2, THEN mp, OF h4]
    unfolding fm by (simp add: candidate_facts del: append.simps scanChunks.simps)
  from a b c d show ?thesis by (intro conjI)
qed

text \<open>
  A known-keyword chunk that parses to a card object, followed by a known-keyword chunk that
  parses to 0: the walk ends with the falsy 0, the first text is no acceptable fallback
  candidate (it has no name), and the no-card-data error is thrown although a
  known-keyword chunk produced a card object.
\<close>

theorem graceful_truncation_counterexample:
  \<open>card_chunk_value example_platform (tEXt ''chara'' ''{"description":"x"}'')
     = Some (JObj [(''description'', JStr ''x'')])
   \<and> parseCharacterCard example_platform
        (png_file [tEXt ''chara'' ''{"description":"x"}'', tEXt ''chara'' ''0''] [])
        ''a.png'' [] [] 0
     = Inl NoCardData\<close>
proof -
  let ?c1 = \<open>tEXt ''chara'' ''{"description":"x"}''\<close>
  let ?c2 = \<open>tEXt ''chara'' ''0''\<close>
  have v1: "card_chunk_value example_platform ?c1 = Some (JObj [(''description'', JStr ''x'')])"
    by (simp add: card_chunk_value_tEXt no_nul_chara known_chara ascii_examples parse_description)
  have v2: "card_chunk_value example_platform ?c2 = Some (JNum 0)"
    by (simp add: card_chunk_value_tEXt no_nul_chara known_chara ascii_examples parse_zero)
  have ok: "\<forall>x\<in>set [?c1, ?c2]. chunk_ok x" using ok_examples by simp
  have "characterData (run_chunks example_platform ([?c1] @ ?c2 # []) initial_state) = JNum 0"
    by (rule characterData_run_chunks_last[OF v2]) simp
  hence cd: "characterData (run_chunks example_platform [?c1, ?c2] initial_state) = JNum 0" by simp
  have ca: \<open>candidates example_platform [?c1, ?c2] = [''{"description":"x"}'']\<close>
    by (simp add: candidates_def reading_tEXt_ascii no_nul_chara ascii_examples looks)
  have "findCharacterData example_platform (png_file [?c1, ?c2] []) = Inl NoCardData"
    by (simp add: findCharacterData_file[OF ok truncated_Nil] characterData_chunk_effect v1 v2
        ca candidate_facts)
  hence "parseCharacterCard example_platform (png_file [?c1, ?c2] []) ''a.png'' [] [] 0 = Inl NoCardData"
    by (simp add: parseCharacterCard_def)
  with v1 show ?thesis by (intro conjI)
qed

text \<open>
  C7 at a failing input. The text of the \<^verbatim>\<open>chara\<close> chunk is raw JSON and no valid base64.
  \<^verbatim>\<open>decodeBase64Utf8\<close> then returns the text with all white space removed, that text
  parses, and the recorded description is \<^verbatim>\<open>Aguide.\<close>, where \<^verbatim>\<open>JSON.parse\<close> of the exact
  text gives \<^verbatim>\<open>A guide.\<close>
\<close>

theorem raw_json_loses_white_space:
  \<open>base64_decode ''{"name":"Aria","description":"A guide."}'' = None
   \<and> example_json_parse ''{"name":"Aria","description":"A guide."}''
       = Some (JObj [(''name'', JStr ''Aria''), (''description'', JStr ''A guide.'')])
   \<and> findCharacterData example_platform
        (png_file [tEXt ''chara'' ''{"name":"Aria","description":"A guide."}''] [])
       = Inr (JObj [(''name'', JStr ''Aria''), (''description'', JStr ''Aguide.'')])\<close>
proof -
  let ?c = \<open>tEXt ''chara'' ''{"name":"Aria","description":"A guide."}''\<close>
  have a: \<open>base64_decode ''{"name":"Aria","description":"A guide."}'' = None\<close> by code_simp
  have b: \<open>example_json_parse ''{"name":"Aria","description":"A guide."}''
       = Some (JObj [(''name'', JStr ''Aria''), (''description'', JStr ''A guide.'')])\<close>
    by code_simp
  have v: "card_chunk_value example_platform ?c
           = Some (JObj [(''name'', JStr ''Aria''), (''description'', JStr ''Aguide.'')])"
    by (simp add: card_chunk_value_tEXt no_nul_chara known_chara ascii_examples parse_guide)
  have ok: "\<forall>x\<in>set [?c]. chunk_ok x" using ok_examples by simp
  have cd: "characterData (run_chunks example_platform [?c] initial_state)
            = JObj [(''name'', JStr ''Aria''), (''description'', JStr ''Aguide.'')]"
    by (simp add: characterData_chunk_effect v)
  have "findCharacterData example_platform (png_file [?c] [])
        = Inr (JObj [(''name'', JStr ''Aria''), (''description'', JStr ''Aguide.'')])"
    by (simp add: findCharacterData_file[OF ok truncated_Nil] characterData_chunk_effect v)
  with a b show ?thesis by (intro conjI)
qed



end
